theory Spec2Isabelle
  imports Main "HOL-Library.Sublist"
begin

section \<open>Characters and their classes\<close>

text \<open>
  A Python \<open>str\<close> is a sequence of code points. The model is \<^typ>\<open>string\<close>, whose
  characters are the code points 0 to 255; \<open>ord\<close> reads the code point. The classes
  below are the ones the Python runtime assigns to these code points: \<open>isspace\<close> is
  the class of \<open>str.isspace\<close>, of \<open>str.split()\<close>, of \<open>str.strip()\<close> and of \<open>\s\<close>
  in a \<open>str\<close> pattern; \<open>isword\<close> is \<open>\w\<close> (alphanumeric or underscore);
  \<open>ch_isupper\<close>, \<open>ch_islower\<close> and \<open>ch_istitle\<close> are the per-character tests that
  \<open>str.isupper\<close> is built from; no code point below 256 is titlecase. \<open>LF\<close> is
  \<open>'\n'\<close> and \<open>CR\<close> is \<open>'\r'\<close>.
\<close>

definition ord :: "char \<Rightarrow> nat" where
  "ord c = of_char c"

definition LF :: char where
  "LF = CHR 0x0A"

definition CR :: char where
  "CR = CHR 0x0D"

definition isspace :: "char \<Rightarrow> bool" where
  "isspace c =
     (let n = ord c in (9 \<le> n \<and> n \<le> 13) \<or> (28 \<le> n \<and> n \<le> 32) \<or> n = 133 \<or> n = 160)"

definition isalnum :: "char \<Rightarrow> bool" where
  "isalnum c =
     (let n = ord c in
        (48 \<le> n \<and> n \<le> 57) \<or> (65 \<le> n \<and> n \<le> 90) \<or> (97 \<le> n \<and> n \<le> 122) \<or>
        n = 170 \<or> n = 178 \<or> n = 179 \<or> n = 181 \<or> n = 185 \<or> n = 186 \<or>
        (188 \<le> n \<and> n \<le> 190) \<or> (192 \<le> n \<and> n \<le> 214) \<or>
        (216 \<le> n \<and> n \<le> 246) \<or> (248 \<le> n \<and> n \<le> 255))"

definition isword :: "char \<Rightarrow> bool" where
  "isword c = (isalnum c \<or> c = CHR ''_'')"

definition ch_isupper :: "char \<Rightarrow> bool" where
  "ch_isupper c =
     (let n = ord c in
        (65 \<le> n \<and> n \<le> 90) \<or> (192 \<le> n \<and> n \<le> 214) \<or> (216 \<le> n \<and> n \<le> 222))"

definition ch_islower :: "char \<Rightarrow> bool" where
  "ch_islower c =
     (let n = ord c in
        (97 \<le> n \<and> n \<le> 122) \<or> n = 170 \<or> n = 181 \<or> n = 186 \<or>
        (223 \<le> n \<and> n \<le> 246) \<or> (248 \<le> n \<and> n \<le> 255))"

definition ch_istitle :: "char \<Rightarrow> bool" where
  "ch_istitle c = False"

text \<open>
  The character sets written out in the pattern of line 42: \<open>[.!?]\<close>, and \<open>[A-Z]\<close>,
  which is the range of code points from 65 to 90.
\<close>

definition is_terminal :: "char \<Rightarrow> bool" where
  "is_terminal c = (c = CHR ''.'' \<or> c = CHR ''!'' \<or> c = CHR ''?'')"

definition is_A_Z :: "char \<Rightarrow> bool" where
  "is_A_Z c = (65 \<le> ord c \<and> ord c \<le> 90)"

section \<open>String operations of the runtime\<close>

text \<open>
  The exceptions: \<open>IndexError\<close> from an index out of range, \<open>ValueError\<close> with its
  message, and any other subclass of \<open>Exception\<close>, with its text, for what the file
  system and the note service raise.
\<close>

datatype exn = IndexError | ValueError string | OtherException string

text \<open>\<open>s[i]\<close> for a non-negative index: out of range raises \<open>IndexError\<close>.\<close>

definition getitem :: "string \<Rightarrow> nat \<Rightarrow> exn + char" where
  "getitem s i = (if i < length s then Inr (s ! i) else Inl IndexError)"

text \<open>
  \<open>s.isupper()\<close>: no lowercase or titlecase character, and at least one uppercase one;
  a string of length one is tested with the character test alone.
\<close>

fun isupper_loop :: "string \<Rightarrow> bool \<Rightarrow> bool" where
  "isupper_loop [] cased = cased"
| "isupper_loop (ch # s) cased =
     (if ch_islower ch \<or> ch_istitle ch then False
      else if \<not> cased \<and> ch_isupper ch then isupper_loop s True
      else isupper_loop s cased)"

definition str_isupper :: "string \<Rightarrow> bool" where
  "str_isupper s =
     (if length s = 1 then ch_isupper (hd s)
      else if s = [] then False
      else isupper_loop s False)"

text \<open>\<open>s.replace(old, new)\<close>: the occurrences of \<open>old\<close>, left to right, not overlapping.\<close>

function str_replace :: "string \<Rightarrow> string \<Rightarrow> string \<Rightarrow> string" where
  "str_replace old new [] = (if old = [] then new else [])"
| "str_replace old new (x # xs) =
     (if old = [] then new @ x # str_replace old new xs
      else if prefix old (x # xs) then new @ str_replace old new (drop (length old) (x # xs))
      else x # str_replace old new xs)"
  by pat_completeness auto
termination
  by (relation "measure (\<lambda>(old, new, s). length s)") auto

text \<open>
  \<open>s.split()\<close>: the maximal runs of characters that are not whitespace, in order.
  \<open>cur\<close> is the token being read.
\<close>

fun split_loop :: "string \<Rightarrow> string \<Rightarrow> string list" where
  "split_loop cur [] = (if cur = [] then [] else [cur])"
| "split_loop cur (x # xs) =
     (if isspace x then (if cur = [] then split_loop [] xs else cur # split_loop [] xs)
      else split_loop (cur @ [x]) xs)"

definition split :: "string \<Rightarrow> string list" where
  "split s = split_loop [] s"

fun join :: "string \<Rightarrow> string list \<Rightarrow> string" where
  "join sep [] = []"
| "join sep [w] = w"
| "join sep (w # ws) = w @ sep @ join sep ws"

definition strip :: "string \<Rightarrow> string" where
  "strip s = rev (dropWhile isspace (rev (dropWhile isspace s)))"

section \<open>The regular expressions\<close>

text \<open>
  The three patterns of the program are sequences of these items: one character of a
  class, a greedy \<open>*\<close> or \<open>+\<close> of a class, a look-behind and a look-ahead of one
  character of a class.
\<close>

datatype re_item =
    One "char \<Rightarrow> bool"
  | Star "char \<Rightarrow> bool"
  | Plus "char \<Rightarrow> bool"
  | LookBehind "char \<Rightarrow> bool"
  | LookAhead "char \<Rightarrow> bool"

text \<open>
  \<open>match_here p prev s\<close> matches the pattern at the start of \<open>s\<close>, where \<open>prev\<close> is the
  character before \<open>s\<close> in the subject string, and returns what is left of \<open>s\<close> after the
  match. It backtracks as the \<open>re\<close> module does: a greedy item takes as many
  characters as it can and gives them back one at a time while the rest of the pattern
  fails.
\<close>

fun match_here :: "re_item list \<Rightarrow> char option \<Rightarrow> string \<Rightarrow> string option" where
  "match_here [] prev s = Some s"
| "match_here (One c # p) prev [] = None"
| "match_here (One c # p) prev (x # xs) = (if c x then match_here p (Some x) xs else None)"
| "match_here (Star c # p) prev [] = match_here p prev []"
| "match_here (Star c # p) prev (x # xs) =
     (if c x then
        (case match_here (Star c # p) (Some x) xs of
           Some r \<Rightarrow> Some r
         | None \<Rightarrow> match_here p prev (x # xs))
      else match_here p prev (x # xs))"
| "match_here (Plus c # p) prev [] = None"
| "match_here (Plus c # p) prev (x # xs) =
     (if c x then match_here (Star c # p) (Some x) xs else None)"
| "match_here (LookBehind c # p) prev s =
     (case prev of None \<Rightarrow> None | Some y \<Rightarrow> if c y then match_here p prev s else None)"
| "match_here (LookAhead c # p) prev [] = None"
| "match_here (LookAhead c # p) prev (x # xs) =
     (if c x then match_here p prev (x # xs) else None)"

text \<open>
  \<open>re.sub(p, repl, s)\<close> with a literal replacement: the scan goes through \<open>s\<close> from
  left to right; where the pattern matches, the match is replaced and the scan goes on
  after it, the last character of the match being the one before the rest. An empty
  match is replaced too, and the scan then copies one character and moves on. The three
  patterns of the program never match the empty string.
\<close>

function re_sub :: "re_item list \<Rightarrow> string \<Rightarrow> char option \<Rightarrow> string \<Rightarrow> string" where
  "re_sub p repl prev [] = (case match_here p prev [] of Some r \<Rightarrow> repl | None \<Rightarrow> [])"
| "re_sub p repl prev (x # xs) =
     (case match_here p prev (x # xs) of
        None \<Rightarrow> x # re_sub p repl (Some x) xs
      | Some r \<Rightarrow>
          if length r < Suc (length xs)
          then repl @ re_sub p repl (Some ((x # xs) ! (length xs - length r))) r
          else repl @ x # re_sub p repl (Some x) xs)"
  by pat_completeness auto
termination
  by (relation "measure (\<lambda>(p, repl, prev, s). length s)") auto

section \<open>The transformation pipeline\<close>

text \<open>Line 39: the pattern \<open>\n\s*\n\s*\n\<close>.\<close>

definition blank_lines_re :: "re_item list" where
  "blank_lines_re =
     [One (\<lambda>c. c = LF), Star isspace, One (\<lambda>c. c = LF), Star isspace, One (\<lambda>c. c = LF)]"

text \<open>Line 42: the pattern \<open>(?<=[.!?])\s+(?=[A-Z])\<close>.\<close>

definition sentence_re :: "re_item list" where
  "sentence_re = [LookBehind is_terminal, Plus isspace, LookAhead is_A_Z]"

text \<open>Line 51: the pattern \<open>[^\w\s]\<close>.\<close>

definition punct_re :: "re_item list" where
  "punct_re = [One (\<lambda>c. \<not> (isword c \<or> isspace c))]"

definition common_words :: "string set" where
  "common_words =
     {''The'', ''A'', ''An'', ''This'', ''That'', ''These'', ''Those'', ''I'', ''You'',
      ''He'', ''She'', ''It'', ''We'', ''They''}"

text \<open>Lines 36 to 39, the normalizer: line endings, then runs of empty lines.\<close>

definition normalizer :: "string \<Rightarrow> string" where
  "normalizer content =
     (let content = str_replace [CR] [LF] (str_replace [CR, LF] [LF] content)
      in re_sub blank_lines_re [LF, LF] None content)"

text \<open>Line 42, the sentence pass.\<close>

definition resegment :: "string \<Rightarrow> string" where
  "resegment content = re_sub sentence_re [LF, LF] None content"

text \<open>Line 51.\<close>

definition clean_word_of :: "string \<Rightarrow> string" where
  "clean_word_of word = re_sub punct_re [] None word"

text \<open>
  Lines 51 to 65, the body of the loop for one token. The conjunction of line 58 is
  evaluated left to right and stops at the first false conjunct, so \<open>clean_word[0]\<close> is
  read only when \<open>clean_word\<close> is not empty.
\<close>

definition process_word :: "string \<Rightarrow> exn + string" where
  "process_word word =
     (let clean_word = clean_word_of word in
      if clean_word = [] then Inr word
      else
        (case getitem clean_word 0 of
           Inl e \<Rightarrow> Inl e
         | Inr c0 \<Rightarrow>
             if str_isupper [c0] \<and> clean_word \<notin> common_words \<and>
                \<not> str_isupper clean_word \<and> length clean_word > 1
             then
               (let punctuation = drop (length clean_word) word
                in Inr (''[['' @ clean_word @ '']]'' @ punctuation))
             else Inr word))"

text \<open>Lines 48 to 66, the loop over the tokens.\<close>

fun process_words :: "string list \<Rightarrow> string list \<Rightarrow> exn + string list" where
  "process_words [] processed_words = Inr processed_words"
| "process_words (word # words) processed_words =
     (case process_word word of
        Inl e \<Rightarrow> Inl e
      | Inr w \<Rightarrow> process_words words (processed_words @ [w]))"

definition process_supernote_content :: "string \<Rightarrow> exn + string" where
  "process_supernote_content content =
     (let content = normalizer content;
          content = resegment content;
          words = split content
      in case process_words words [] of
           Inl e \<Rightarrow> Inl e
         | Inr processed_words \<Rightarrow> Inr (strip (join '' '' processed_words)))"

section \<open>The orchestration around the pipeline\<close>

text \<open>
  The files on disk and the note service are outside the program. They are a world of
  type \<open>'w\<close> and a record of operations on it; each operation returns its result or the
  exception it raised, and the world it leaves. Exceptions are the subclasses of
  \<open>Exception\<close>, which is what the two \<open>except Exception\<close> clauses catch. What \<open>print\<close>
  writes is kept in \<open>stdout\<close>, one entry per call.
\<close>

definition EXPORT_FOLDER :: string where
  "EXPORT_FOLDER = ''Supernote Exports''"

definition DAILY_NOTES_FOLDER :: string where
  "DAILY_NOTES_FOLDER = ''Daily Notes''"

definition NOTE_SECTION_HEADING :: string where
  "NOTE_SECTION_HEADING = ''Notes''"

definition VALID_EXTENSIONS :: "string list" where
  "VALID_EXTENSIONS = [''.txt'']"

definition PROCESSED_SUFFIX :: string where
  "PROCESSED_SUFFIX = ''.processed''"

record ('w, 'd) env =
  open_read :: "string \<Rightarrow> 'w \<Rightarrow> (exn + string) \<times> 'w"
  get_file_contents :: "string \<Rightarrow> 'w \<Rightarrow> (exn + string) \<times> 'w"
  append_content :: "string \<Rightarrow> string \<Rightarrow> 'w \<Rightarrow> (exn + unit) \<times> 'w"
  patch_content :: "string \<Rightarrow> string \<Rightarrow> string \<Rightarrow> string \<Rightarrow> string \<Rightarrow> 'w \<Rightarrow> (exn + unit) \<times> 'w"
  rename :: "string \<Rightarrow> string \<Rightarrow> 'w \<Rightarrow> (exn + unit) \<times> 'w"
  now :: "'w \<Rightarrow> 'd"
  strftime :: "'d \<Rightarrow> string \<Rightarrow> string"

record 'w pstate =
  world :: 'w
  stdout :: "string list"

record importer =
  template_content :: "string option"

text \<open>\<open>str(e)\<close>, the text of an exception.\<close>

fun exn_str :: "exn \<Rightarrow> string" where
  "exn_str IndexError = ''string index out of range''"
| "exn_str (ValueError m) = m"
| "exn_str (OtherException m) = m"

definition print :: "string \<Rightarrow> 'w pstate \<Rightarrow> 'w pstate" where
  "print line st = st\<lparr>stdout := stdout st @ [line]\<rparr>"

text \<open>Running an operation of the environment on the world of the state.\<close>

definition call :: "('w \<Rightarrow> (exn + 'a) \<times> 'w) \<Rightarrow> 'w pstate \<Rightarrow> (exn + 'a) \<times> 'w pstate" where
  "call f st = (case f (world st) of (r, w) \<Rightarrow> (r, st\<lparr>world := w\<rparr>))"

text \<open>\<open>os.path.join\<close> of two components and \<open>str.endswith\<close> of a tuple of suffixes.\<close>

definition path_join :: "string \<Rightarrow> string \<Rightarrow> string" where
  "path_join a b =
     (if prefix ''/'' b then b
      else if a = [] \<or> suffix ''/'' a then a @ b
      else a @ ''/'' @ b)"

definition endswith_any :: "string \<Rightarrow> string list \<Rightarrow> bool" where
  "endswith_any s sufs = list_ex (\<lambda>suf. suffix suf s) sufs"

text \<open>Lines 72 to 94.\<close>

definition ensure_daily_note_exists ::
  "('w, 'd) env \<Rightarrow> importer \<Rightarrow> 'd \<Rightarrow> 'w pstate \<Rightarrow> (exn + string) \<times> 'w pstate" where
  "ensure_daily_note_exists E self date st =
     (let daily_note_path = DAILY_NOTES_FOLDER @ ''/'' @ strftime E date ''%Y-%m-%d'' @ ''.md'' in
      case call (get_file_contents E daily_note_path) st of
        (Inr _, st1) \<Rightarrow> (Inr daily_note_path, st1)
      | (Inl _, st1) \<Rightarrow>
          (case template_content self of
             None \<Rightarrow> (Inl (ValueError ''Template not loaded''), st1)
           | Some t \<Rightarrow>
               if t = [] then (Inl (ValueError ''Template not loaded''), st1)
               else
                 (let note_content =
                        str_replace ''{{time}}'' (strftime E date ''%H:%M'')
                          (str_replace ''{{date}}'' (strftime E date ''%Y-%m-%d'') t)
                  in case call (append_content E daily_note_path note_content) st1 of
                       (Inl e, st2) \<Rightarrow> (Inl e, st2)
                     | (Inr _, st2) \<Rightarrow> (Inr daily_note_path, st2))))"

text \<open>Lines 96 to 108.\<close>

definition add_to_daily_note ::
  "('w, 'd) env \<Rightarrow> string \<Rightarrow> string \<Rightarrow> 'w pstate \<Rightarrow> (exn + unit) \<times> 'w pstate" where
  "add_to_daily_note E note_path content st =
     (case call (patch_content E note_path ''heading'' NOTE_SECTION_HEADING ''append''
                   ([LF] @ content @ [LF])) st of
        (Inr _, st1) \<Rightarrow> (Inr (), st1)
      | (Inl e, st1) \<Rightarrow>
          (Inr (), print (''Error adding content to daily note: '' @ exn_str e) st1))"

text \<open>Lines 113 to 127, the statements inside \<open>try\<close>.\<close>

definition process_supernote_file_body ::
  "('w, 'd) env \<Rightarrow> importer \<Rightarrow> string \<Rightarrow> 'd \<Rightarrow> 'w pstate \<Rightarrow> (exn + unit) \<times> 'w pstate" where
  "process_supernote_file_body E self file_path date st =
     (case call (open_read E file_path) st of
        (Inl e, st1) \<Rightarrow> (Inl e, st1)
      | (Inr content, st1) \<Rightarrow>
          (case process_supernote_content content of
             Inl e \<Rightarrow> (Inl e, st1)
           | Inr processed_content \<Rightarrow>
               (case ensure_daily_note_exists E self date st1 of
                  (Inl e, st2) \<Rightarrow> (Inl e, st2)
                | (Inr daily_note_path, st2) \<Rightarrow>
                    (case add_to_daily_note E daily_note_path processed_content st2 of
                       (Inl e, st3) \<Rightarrow> (Inl e, st3)
                     | (Inr _, st3) \<Rightarrow>
                         call (rename E file_path (file_path @ PROCESSED_SUFFIX)) st3))))"

text \<open>Lines 110 to 130, with the \<open>except Exception\<close> clause.\<close>

definition process_supernote_file ::
  "('w, 'd) env \<Rightarrow> importer \<Rightarrow> string \<Rightarrow> 'd \<Rightarrow> 'w pstate \<Rightarrow> (exn + unit) \<times> 'w pstate" where
  "process_supernote_file E self file_path date st =
     (case process_supernote_file_body E self file_path date st of
        (Inr _, st1) \<Rightarrow> (Inr (), st1)
      | (Inl e, st1) \<Rightarrow>
          (Inr (), print (''Error processing '' @ file_path @ '': '' @ exn_str e) st1))"

text \<open>
  Lines 140 to 146, the loop of \<open>main\<close> over the names that \<open>os.listdir\<close> returned. An
  exception that leaves \<open>process_supernote_file\<close> would leave the loop.
\<close>

fun main_loop ::
  "('w, 'd) env \<Rightarrow> importer \<Rightarrow> string list \<Rightarrow> 'w pstate \<Rightarrow> (exn + unit) \<times> 'w pstate" where
  "main_loop E self [] st = (Inr (), st)"
| "main_loop E self (filename # filenames) st =
     (if endswith_any filename VALID_EXTENSIONS \<and> \<not> suffix PROCESSED_SUFFIX filename then
        (let file_path = path_join EXPORT_FOLDER filename;
             date = now E (world st)
         in case process_supernote_file E self file_path date st of
              (Inl e, st1) \<Rightarrow> (Inl e, st1)
            | (Inr _, st1) \<Rightarrow> main_loop E self filenames st1)
      else main_loop E self filenames st)"

section \<open>Notions used in the statements\<close>

text \<open>
  The number of newlines in the whitespace that a string starts with, and the strings in
  which no position starts a whitespace run with more than two newlines.
\<close>

definition leading_newlines :: "string \<Rightarrow> nat" where
  "leading_newlines s = length (filter (\<lambda>c. c = LF) (takeWhile isspace s))"

fun blank_ok :: "string \<Rightarrow> bool" where
  "blank_ok [] = True"
| "blank_ok (x # xs) = (leading_newlines (x # xs) \<le> 2 \<and> blank_ok xs)"

text \<open>
  The wrapping rule in the words of the specification. A word is entirely uppercase when
  it has an uppercase character and no lowercase or titlecase one, which is how
  \<open>str.isupper\<close> reads a word with digits or underscores in it.
\<close>

definition entirely_uppercase :: "string \<Rightarrow> bool" where
  "entirely_uppercase w =
     (list_ex ch_isupper w \<and> list_all (\<lambda>c. \<not> ch_islower c \<and> \<not> ch_istitle c) w)"

definition stoplist :: "string list" where
  "stoplist =
     [''The'', ''A'', ''An'', ''This'', ''That'', ''These'', ''Those'', ''I'', ''You'',
      ''He'', ''She'', ''It'', ''We'', ''They'']"

definition should_wrap :: "string \<Rightarrow> bool" where
  "should_wrap cw =
     (cw \<noteq> [] \<and> ch_isupper (hd cw) \<and> \<not> List.member stoplist cw \<and>
      \<not> entirely_uppercase cw \<and> length cw > 1)"

definition wrapped :: "string \<Rightarrow> string" where
  "wrapped word =
     ''[['' @ clean_word_of word @ '']]'' @ drop (length (clean_word_of word)) word"

definition wikify :: "string \<Rightarrow> string" where
  "wikify word = (if should_wrap (clean_word_of word) then wrapped word else word)"

text \<open>The punctuation of a token is purely trailing: no word character follows it.\<close>

definition is_token :: "string \<Rightarrow> bool" where
  "is_token word = (word \<noteq> [] \<and> list_all (\<lambda>c. \<not> isspace c) word)"

definition is_punct :: "char \<Rightarrow> bool" where
  "is_punct c = (\<not> isword c \<and> \<not> isspace c)"

definition purely_trailing :: "string \<Rightarrow> bool" where
  "purely_trailing word = list_all is_punct (dropWhile isword word)"

text \<open>
  A text as its tokens and the whitespace around them: each token with the gap before
  it, and the whitespace after the last token. The gaps are whitespace, not empty except
  perhaps the first; the tokens are not empty and hold no whitespace.
\<close>

fun text_of :: "(string \<times> string) list \<Rightarrow> string" where
  "text_of [] = []"
| "text_of ((gap, token) # rest) = gap @ token @ text_of rest"

definition gaps_and_tokens :: "(string \<times> string) list \<Rightarrow> bool" where
  "gaps_and_tokens pieces =
     (list_all (\<lambda>(gap, token). list_all isspace gap \<and> is_token token) pieces \<and>
      list_all (\<lambda>(gap, token). gap \<noteq> []) (tl pieces))"

text \<open>
  The line endings unified, in the words of the specification: every \<open>\r\<close> becomes
  \<open>\n\<close>, and a \<open>\n\<close> that comes right after a \<open>\r\<close> is one line end with it.
  \<open>after_cr\<close> says that the character before was a \<open>\r\<close>.
\<close>

fun unify :: "bool \<Rightarrow> string \<Rightarrow> string" where
  "unify after_cr [] = []"
| "unify after_cr (c # s) =
     (if c = CR then LF # unify True s
      else if c = LF \<and> after_cr then unify False s
      else c # unify False s)"

definition unified :: "string \<Rightarrow> string" where
  "unified content = unify False content"

text \<open>
  An environment to run the orchestration in: the world is the list of the paths of the
  export files that exist, each holding the same text; the note service answers every
  call; reading or renaming a file that does not exist raises.
\<close>

definition demo_env :: "(string list, unit) env" where
  "demo_env =
     \<lparr>open_read = (\<lambda>path w.
        if path \<in> set w then (Inr ''Met Ada.'', w)
        else (Inl (OtherException ''No such file''), w)),
      get_file_contents = (\<lambda>path w. (Inr ''# Notes'', w)),
      append_content = (\<lambda>path text w. (Inr (), w)),
      patch_content = (\<lambda>path target_type target operation text w. (Inr (), w)),
      rename = (\<lambda>src dst w.
        if src \<in> set w then (Inr (), dst # remove1 src w)
        else (Inl (OtherException ''No such file''), w)),
      now = (\<lambda>w. ()),
      strftime = (\<lambda>d fmt. if fmt = ''%H:%M'' then ''09:30'' else ''2024-05-01'')\<rparr>"

section \<open>Facts about the runtime operations\<close>

lemma isspace_LF: "isspace LF"
  by (simp add: isspace_def LF_def ord_def)

lemma isspace_CR: "isspace CR"
  by (simp add: isspace_def CR_def ord_def)

lemma isspace_blank: "isspace CHR '' ''"
  by (simp add: isspace_def ord_def)

lemma brackets_not_space: "\<not> isspace CHR ''[''" "\<not> isspace CHR '']''"
  by (simp_all add: isspace_def ord_def)

lemma match_here_suffix: "match_here p prev s = Some r \<Longrightarrow> suffix r s"
  by (induction p prev s rule: match_here.induct)
     (auto split: if_splits option.splits simp: suffix_Cons)

text \<open>
  A match of the pattern of line 42 or of line 51 takes at least one character (for the
  pattern of line 39, see \<open>blank_lines_re_Some\<close> below).
\<close>

lemma sentence_re_consumes:
  assumes "match_here sentence_re prev s = Some r"
  shows "length r < length s"
proof (cases s)
  case Nil
  with assms show ?thesis by (simp add: sentence_re_def split: option.splits if_splits)
next
  case (Cons x xs)
  with assms have "match_here [Star isspace, LookAhead is_A_Z] (Some x) xs = Some r"
    by (simp add: sentence_re_def split: option.splits if_splits)
  then have "suffix r xs" by (rule match_here_suffix)
  then have "length r \<le> length xs" by (rule suffix_length_le)
  with Cons show ?thesis by simp
qed

lemma punct_re_consumes:
  assumes "match_here punct_re prev s = Some r"
  shows "length r < length s"
  using assms by (cases s) (auto simp: punct_re_def split: if_splits)

lemma set_re_sub: "set (re_sub p repl prev s) \<subseteq> set repl \<union> set s"
proof (induction p repl prev s rule: re_sub.induct)
  case (1 p repl prev)
  then show ?case by (auto split: option.splits)
next
  case (2 p repl prev x xs)
  show ?case
  proof (cases "match_here p prev (x # xs)")
    case None
    with 2 show ?thesis by auto
  next
    case (Some r)
    then have "set r \<subseteq> set (x # xs)"
      using match_here_suffix set_mono_suffix by blast
    with 2 Some show ?thesis by (auto split: if_splits)
  qed
qed

lemma clean_word_of_filter: "clean_word_of w = filter (\<lambda>c. isword c \<or> isspace c) w"
proof -
  have "re_sub punct_re [] prev w = filter (\<lambda>c. isword c \<or> isspace c) w" for prev
    by (induction w arbitrary: prev) (auto simp: punct_re_def)
  then show ?thesis by (simp add: clean_word_of_def)
qed

lemma getitem_0: "s \<noteq> [] \<Longrightarrow> getitem s 0 = Inr (hd s)"
  by (cases s) (simp_all add: getitem_def)

lemma upper_not_lower: "ch_isupper c \<Longrightarrow> \<not> ch_islower c"
  by (auto simp: ch_isupper_def ch_islower_def Let_def)

lemma isupper_loop_eq:
  "isupper_loop s cased =
     (list_all (\<lambda>c. \<not> ch_islower c \<and> \<not> ch_istitle c) s \<and> (cased \<or> list_ex ch_isupper s))"
  by (induction s cased rule: isupper_loop.induct) auto

lemma str_isupper_eq: "str_isupper s = entirely_uppercase s"
proof (cases s)
  case Nil
  then show ?thesis by (simp add: str_isupper_def entirely_uppercase_def)
next
  case (Cons c cs)
  then show ?thesis
    by (cases cs)
       (auto simp: str_isupper_def entirely_uppercase_def isupper_loop_eq ch_istitle_def
             dest: upper_not_lower)
qed

lemma set_stoplist: "set stoplist = common_words"
  by (simp add: stoplist_def common_words_def)

lemma str_isupper_single: "str_isupper [c] = ch_isupper c"
  by (simp add: str_isupper_def)

lemma should_wrap_eq:
  "should_wrap cw =
     (cw \<noteq> [] \<and> str_isupper [hd cw] \<and> cw \<notin> common_words \<and> \<not> str_isupper cw \<and> length cw > 1)"
  unfolding should_wrap_def str_isupper_single
  by (simp add: str_isupper_eq set_stoplist)

lemma process_word_eq: "process_word w = Inr (wikify w)"
proof (cases "clean_word_of w = []")
  case True
  then show ?thesis by (simp add: process_word_def wikify_def should_wrap_eq)
next
  case False
  then have "getitem (clean_word_of w) 0 = Inr (hd (clean_word_of w))"
    by (rule getitem_0)
  with False show ?thesis
    by (simp add: process_word_def wikify_def should_wrap_eq wrapped_def Let_def)
qed

lemma process_words_eq: "process_words ws acc = Inr (acc @ map wikify ws)"
  by (induction ws arbitrary: acc) (simp_all add: process_word_eq)

lemma process_supernote_content_eq:
  "process_supernote_content s =
     Inr (strip (join '' '' (map wikify (split (resegment (normalizer s))))))"
  by (simp add: process_supernote_content_def process_words_eq)

section \<open>The pipeline on the examples of the specification\<close>

text \<open>
  C1. On \<open>"Hello world. Next sentence here."\<close> the sentence pass (line 42) does put two
  newlines between \<open>world.\<close> and \<open>Next\<close>, but the result of the whole function has a
  single space there and no newline at all: the tokens are split at whitespace (line 47)
  and joined again with single spaces (line 68).
\<close>

theorem C1_paragraph_break_lost:
  "resegment (normalizer ''Hello world. Next sentence here.'') =
     ''Hello world.'' @ [LF, LF] @ ''Next sentence here.'' \<and>
   process_supernote_content ''Hello world. Next sentence here.'' =
     Inr ''[[Hello]] world. [[Next]] sentence here.''"
  by code_simp

text \<open>
  C4. On \<open>"Paris, France."\<close> the result is \<open>"[[Paris]], [[France]]."\<close>: the comma and the
  full stop, which end their tokens, stay outside the closing brackets.
\<close>

theorem C4_trailing_punctuation_outside:
  "process_supernote_content ''Paris, France.'' = Inr ''[[Paris]], [[France]].''"
  by code_simp

section \<open>What the output is made of\<close>

lemma split_loop_no_space:
  "w \<in> set (split_loop cur s) \<Longrightarrow> \<forall>c\<in>set cur. \<not> isspace c \<Longrightarrow> \<forall>c\<in>set w. \<not> isspace c"
proof (induction s arbitrary: cur)
  case Nil
  then show ?case by (auto split: if_splits)
next
  case (Cons x xs)
  show ?case
  proof (cases "isspace x")
    case True
    with Cons.prems have "w = cur \<or> w \<in> set (split_loop [] xs)"
      by (auto split: if_splits)
    then show ?thesis using Cons.IH [of "[]"] Cons.prems(2) by auto
  next
    case False
    with Cons.prems have "w \<in> set (split_loop (cur @ [x]) xs)" by simp
    moreover from False Cons.prems(2) have "\<forall>c\<in>set (cur @ [x]). \<not> isspace c" by simp
    ultimately show ?thesis by (rule Cons.IH)
  qed
qed

lemma split_no_space: "w \<in> set (split s) \<Longrightarrow> c \<in> set w \<Longrightarrow> \<not> isspace c"
  using split_loop_no_space [of w "[]" s] by (simp add: split_def)

lemma set_join: "set (join sep ws) \<subseteq> set sep \<union> \<Union> (set ` set ws)"
  by (induction sep ws rule: join.induct) auto

lemma set_strip: "set (strip s) \<subseteq> set s"
proof
  fix c
  assume "c \<in> set (strip s)"
  then have "c \<in> set (dropWhile isspace (rev (dropWhile isspace s)))"
    by (simp add: strip_def)
  then have "c \<in> set (rev (dropWhile isspace s))" by (rule set_dropWhileD)
  then have "c \<in> set (dropWhile isspace s)" by simp
  then show "c \<in> set s" by (rule set_dropWhileD)
qed

lemma set_clean_word_of: "set (clean_word_of w) \<subseteq> set w"
  by (simp add: clean_word_of_filter)

lemma length_clean_word_of: "length (clean_word_of w) \<le> length w"
  by (simp add: clean_word_of_filter)

lemma set_wikify: "set (wikify w) \<subseteq> set w \<union> {CHR ''['', CHR '']''}"
  using set_clean_word_of [of w] set_drop_subset [of "length (clean_word_of w)" w]
  by (auto simp: wikify_def wrapped_def)

lemma output_chars:
  assumes "process_supernote_content s = Inr out" and "c \<in> set out"
  shows "c = CHR '' '' \<or> \<not> isspace c"
proof -
  let ?ws = "split (resegment (normalizer s))"
  from assms(1) have out: "out = strip (join '' '' (map wikify ?ws))"
    by (simp add: process_supernote_content_eq)
  with assms(2) have "c \<in> set (join '' '' (map wikify ?ws))"
    using set_strip by blast
  then have "c = CHR '' '' \<or> (\<exists>w\<in>set ?ws. c \<in> set (wikify w))"
    using set_join [of "'' ''" "map wikify ?ws"] by auto
  then show ?thesis
  proof
    assume "c = CHR '' ''"
    then show ?thesis ..
  next
    assume "\<exists>w\<in>set ?ws. c \<in> set (wikify w)"
    then obtain w where w: "w \<in> set ?ws" and c: "c \<in> set (wikify w)" ..
    from c set_wikify have "c \<in> set w \<or> c = CHR ''['' \<or> c = CHR '']''" by blast
    then have "\<not> isspace c"
      using split_no_space [OF w] brackets_not_space by auto
    then show ?thesis ..
  qed
qed

lemma split_loop_nonempty: "[] \<notin> set (split_loop cur s)"
  by (induction s arbitrary: cur) auto

lemma split_is_token: "w \<in> set (split s) \<Longrightarrow> is_token w"
  using split_no_space [of w s] split_loop_nonempty [of "[]" s]
  by (auto simp: is_token_def list_all_iff split_def)

lemma wikify_is_token:
  assumes "is_token w"
  shows "is_token (wikify w)"
proof -
  have "wikify w \<noteq> []" using assms by (auto simp: wikify_def wrapped_def is_token_def)
  moreover have "\<not> isspace c" if "c \<in> set (wikify w)" for c
  proof -
    from that set_wikify have "c \<in> set w \<or> c = CHR ''['' \<or> c = CHR '']''" by blast
    with assms brackets_not_space show ?thesis by (auto simp: is_token_def list_all_iff)
  qed
  ultimately show ?thesis by (simp add: is_token_def list_all_iff)
qed

lemma split_loop_word:
  "list_all (\<lambda>c. \<not> isspace c) w \<Longrightarrow> split_loop cur (w @ rest) = split_loop (cur @ w) rest"
  by (induction w arbitrary: cur) simp_all

lemma join_ends:
  "list_all is_token ws \<Longrightarrow> ws \<noteq> [] \<Longrightarrow>
     join sep ws \<noteq> [] \<and> \<not> isspace (hd (join sep ws)) \<and> \<not> isspace (last (join sep ws))"
proof (induction sep ws rule: join.induct)
  case (1 sep)
  then show ?case by simp
next
  case (2 sep w)
  then have "w \<noteq> []" "\<forall>c\<in>set w. \<not> isspace c" by (simp_all add: is_token_def list_all_iff)
  then show ?case by simp
next
  case (3 sep w v vs)
  then have "w \<noteq> []" "\<forall>c\<in>set w. \<not> isspace c" by (simp_all add: is_token_def list_all_iff)
  moreover from 3 have "join sep (v # vs) \<noteq> []" "\<not> isspace (last (join sep (v # vs)))"
    by simp_all
  ultimately show ?case by simp
qed

lemma dropWhile_hd: "xs \<noteq> [] \<Longrightarrow> \<not> P (hd xs) \<Longrightarrow> dropWhile P xs = xs"
  by (cases xs) simp_all

lemma strip_ident:
  assumes "s = [] \<or> \<not> isspace (hd s) \<and> \<not> isspace (last s)"
  shows "strip s = s"
proof (cases "s = []")
  case True
  then show ?thesis by (simp add: strip_def)
next
  case False
  with assms have h: "\<not> isspace (hd s)" and l: "\<not> isspace (last s)" by simp_all
  from False h have 1: "dropWhile isspace s = s" by (rule dropWhile_hd)
  from False have "rev s \<noteq> []" by simp
  moreover from False l have "\<not> isspace (hd (rev s))" by (simp add: hd_rev)
  ultimately have 2: "dropWhile isspace (rev s) = rev s" by (rule dropWhile_hd)
  show ?thesis by (simp only: strip_def 1 2 rev_rev_ident)
qed

lemma strip_join: "list_all is_token ws \<Longrightarrow> strip (join sep ws) = join sep ws"
proof (cases "ws = []")
  case True
  then show ?thesis by (simp add: strip_def)
next
  case False
  assume "list_all is_token ws"
  from join_ends [OF this False, of sep] show ?thesis by (intro strip_ident) simp
qed

lemma split_loop_gap:
  "list_all isspace g \<Longrightarrow> g \<noteq> [] \<Longrightarrow>
     split_loop cur (g @ rest) = (if cur = [] then [] else [cur]) @ split_loop [] rest"
proof (induction g arbitrary: cur)
  case Nil
  then show ?case by simp
next
  case (Cons x g)
  then show ?case by (cases "g = []") auto
qed

lemma split_loop_space:
  "list_all isspace g \<Longrightarrow> split_loop cur g = (if cur = [] then [] else [cur])"
  by (induction g arbitrary: cur) auto

lemma split_loop_pieces:
  assumes "list_all (\<lambda>(gap, token). list_all isspace gap \<and> is_token token) pieces"
    and "list_all (\<lambda>(gap, token). gap \<noteq> []) pieces" and "list_all isspace trail"
  shows "split_loop cur (text_of pieces @ trail) =
           (if cur = [] then [] else [cur]) @ map snd pieces"
  using assms
proof (induction pieces arbitrary: cur)
  case Nil
  then show ?case by (simp add: split_loop_space)
next
  case (Cons p pieces)
  obtain g w where p: "p = (g, w)" by (cases p)
  with Cons.prems have g: "list_all isspace g" "g \<noteq> []"
    and w: "list_all (\<lambda>c. \<not> isspace c) w" "w \<noteq> []"
    by (simp_all add: is_token_def)
  have "split_loop cur (g @ w @ text_of pieces @ trail) =
      (if cur = [] then [] else [cur]) @ split_loop [] (w @ text_of pieces @ trail)"
    using g by (rule split_loop_gap)
  also have "split_loop [] (w @ text_of pieces @ trail) = split_loop w (text_of pieces @ trail)"
    using split_loop_word [OF w(1), of "[]"] by simp
  also have "\<dots> = [w] @ map snd pieces"
    using Cons.IH [of w] Cons.prems w(2) by simp
  finally show ?case by (simp add: p)
qed

lemma split_text_of:
  assumes "gaps_and_tokens pieces" "list_all isspace trail"
  shows "split (text_of pieces @ trail) = map snd pieces"
proof (cases pieces)
  case Nil
  with assms show ?thesis by (simp add: split_def split_loop_space)
next
  case (Cons p rest)
  obtain g w where p: "p = (g, w)" by (cases p)
  from assms(1) Cons p have g: "list_all isspace g"
    and w: "list_all (\<lambda>c. \<not> isspace c) w" "w \<noteq> []"
    and r: "list_all (\<lambda>(gap, token). list_all isspace gap \<and> is_token token) rest"
      "list_all (\<lambda>(gap, token). gap \<noteq> []) rest"
    by (simp_all add: gaps_and_tokens_def is_token_def)
  have "split_loop [] (g @ w @ text_of rest @ trail) = split_loop [] (w @ text_of rest @ trail)"
  proof (cases "g = []")
    case True
    then show ?thesis by simp
  next
    case False
    with g show ?thesis by (simp add: split_loop_gap)
  qed
  also have "\<dots> = split_loop w (text_of rest @ trail)"
    using split_loop_word [OF w(1), of "[]"] by simp
  also have "\<dots> = [w] @ map snd rest"
    using split_loop_pieces [OF r assms(2), of w] w(2) by simp
  finally show ?thesis by (simp add: split_def Cons p)
qed

lemma split_loop_re_sub:
  assumes pat: "\<And>prev s r. match_here p prev s = Some r \<Longrightarrow>
      \<exists>u. s = u @ r \<and> u \<noteq> [] \<and> list_all isspace u"
    and repl: "repl \<noteq> []" "list_all isspace repl"
  shows "split_loop cur (re_sub p repl prev s) = split_loop cur s"
proof (induction "length s" arbitrary: s cur prev rule: less_induct)
  case less
  show ?case
  proof (cases s)
    case Nil
    have "match_here p prev [] = None"
    proof (cases "match_here p prev []")
      case (Some r)
      from pat [OF this] show ?thesis by simp
    qed simp
    with Nil show ?thesis by simp
  next
    case (Cons x xs)
    show ?thesis
    proof (cases "match_here p prev (x # xs)")
      case None
      have "split_loop c (re_sub p repl (Some x) xs) = split_loop c xs" for c
        using less [of xs c "Some x"] Cons by simp
      with None Cons show ?thesis by simp
    next
      case (Some r)
      from pat [OF this] obtain u where u: "x # xs = u @ r" "u \<noteq> []" "list_all isspace u"
        by blast
      then have "length (x # xs) = length u + length r" by (metis length_append)
      with u(2) have len: "length r < Suc (length xs)" by (cases u) auto
      then have ih: "split_loop [] (re_sub p repl q r) = split_loop [] r" for q
        using less [of r "[]" q] Cons by simp
      from Some len have "re_sub p repl prev (x # xs) =
          repl @ re_sub p repl (Some ((x # xs) ! (length xs - length r))) r"
        by simp
      then have "split_loop cur (re_sub p repl prev (x # xs)) =
          (if cur = [] then [] else [cur]) @ split_loop [] r"
        using split_loop_gap [OF repl(2) repl(1)] ih by simp
      also have "\<dots> = split_loop cur (u @ r)"
        using split_loop_gap [OF u(3) u(2)] by simp
      finally show ?thesis using u(1) Cons by simp
    qed
  qed
qed

lemma star_tail_space:
  assumes "\<And>q t r. match_here p q t = Some r \<Longrightarrow> \<exists>u. t = u @ r \<and> list_all isspace u"
  shows "match_here (Star isspace # p) prev s = Some r \<Longrightarrow> \<exists>u. s = u @ r \<and> list_all isspace u"
proof (induction s arbitrary: prev)
  case Nil
  then show ?case using assms [of prev "[]" r] by simp
next
  case (Cons x xs)
  show ?case
  proof (cases "isspace x \<and> match_here (Star isspace # p) (Some x) xs = Some r")
    case True
    with Cons.IH [of "Some x"] obtain u where "xs = u @ r" "list_all isspace u" by blast
    with True have "x # xs = (x # u) @ r" "list_all isspace (x # u)" by simp_all
    then show ?thesis by blast
  next
    case False
    with Cons.prems have "match_here p prev (x # xs) = Some r"
      by (auto split: if_splits option.splits)
    then show ?thesis by (rule assms)
  qed
qed

lemma one_tail_space:
  assumes "match_here (One c # p) prev s = Some r"
    and "\<And>q t r. match_here p q t = Some r \<Longrightarrow> \<exists>u. t = u @ r \<and> list_all isspace u"
    and "\<And>x. c x \<Longrightarrow> isspace x"
  shows "\<exists>u. s = u @ r \<and> u \<noteq> [] \<and> list_all isspace u"
proof (cases s)
  case Nil
  with assms(1) show ?thesis by simp
next
  case (Cons x xs)
  with assms(1) have x: "c x" and m: "match_here p (Some x) xs = Some r"
    by (auto split: if_splits)
  from assms(2) [OF m] obtain u where "xs = u @ r" "list_all isspace u" by blast
  with x assms(3) Cons have "s = (x # u) @ r" "x # u \<noteq> []" "list_all isspace (x # u)"
    by simp_all
  then show ?thesis by blast
qed

lemma blank_lines_re_space:
  assumes "match_here blank_lines_re prev s = Some r"
  shows "\<exists>u. s = u @ r \<and> u \<noteq> [] \<and> list_all isspace u"
proof -
  have lf: "isspace x" if "x = LF" for x using that isspace_LF by simp
  have 1: "\<exists>u. t = u @ r' \<and> list_all isspace u"
    if "match_here [One (\<lambda>c. c = LF)] q t = Some r'" for q t r'
  proof -
    have "\<exists>u. t = u @ r' \<and> u \<noteq> [] \<and> list_all isspace u"
      using that by (rule one_tail_space) (simp_all add: lf)
    then show ?thesis by blast
  qed
  have 2: "\<exists>u. t = u @ r' \<and> list_all isspace u"
    if "match_here [Star isspace, One (\<lambda>c. c = LF)] q t = Some r'" for q t r'
    using 1 that by (rule star_tail_space)
  have 3: "\<exists>u. t = u @ r' \<and> list_all isspace u"
    if "match_here [One (\<lambda>c. c = LF), Star isspace, One (\<lambda>c. c = LF)] q t = Some r'" for q t r'
  proof -
    have "\<exists>u. t = u @ r' \<and> u \<noteq> [] \<and> list_all isspace u"
      using that by (rule one_tail_space) (erule 2, simp add: lf)
    then show ?thesis by blast
  qed
  have 4: "\<exists>u. t = u @ r' \<and> list_all isspace u"
    if "match_here [Star isspace, One (\<lambda>c. c = LF), Star isspace, One (\<lambda>c. c = LF)] q t = Some r'"
    for q t r'
    using 3 that by (rule star_tail_space)
  from assms show ?thesis
    unfolding blank_lines_re_def by (rule one_tail_space) (erule 4, simp add: lf)
qed

lemma sentence_re_space:
  assumes "match_here sentence_re prev s = Some r"
  shows "\<exists>u. s = u @ r \<and> u \<noteq> [] \<and> list_all isspace u"
proof (cases s)
  case Nil
  with assms show ?thesis by (simp add: sentence_re_def split: option.splits if_splits)
next
  case (Cons x xs)
  have la: "\<exists>u. t = u @ r' \<and> list_all isspace u"
    if "match_here [LookAhead is_A_Z] q t = Some r'" for q t r'
    using that by (cases t) (auto split: if_splits)
  from assms Cons have x: "isspace x"
    and m: "match_here [Star isspace, LookAhead is_A_Z] (Some x) xs = Some r"
    by (simp_all add: sentence_re_def split: option.splits if_splits)
  have "\<exists>u. xs = u @ r \<and> list_all isspace u" using la m by (rule star_tail_space)
  then obtain u where "xs = u @ r" "list_all isspace u" by blast
  with x Cons have "s = (x # u) @ r" "x # u \<noteq> []" "list_all isspace (x # u)" by simp_all
  then show ?thesis by blast
qed

lemma split_loop_replace_CRLF:
  "split_loop cur (str_replace [CR, LF] [LF] s) = split_loop cur s"
proof (induction "length s" arbitrary: s cur rule: less_induct)
  case less
  show ?case
  proof (cases s)
    case Nil
    then show ?thesis by simp
  next
    case (Cons x xs)
    show ?thesis
    proof (cases "prefix [CR, LF] (x # xs)")
      case True
      then obtain t where t: "x # xs = CR # LF # t" by (auto simp: prefix_def)
      have "split_loop [] (str_replace [CR, LF] [LF] t) = split_loop [] t"
        using less [of t "[]"] Cons t by simp
      with t Cons show ?thesis by (simp add: isspace_CR isspace_LF)
    next
      case False
      have "split_loop c (str_replace [CR, LF] [LF] xs) = split_loop c xs" for c
        using less [of xs c] Cons by simp
      with False Cons show ?thesis by auto
    qed
  qed
qed

lemma split_loop_replace_CR:
  "split_loop cur (str_replace [CR] [LF] s) = split_loop cur s"
  by (induction s arbitrary: cur) (auto simp: isspace_CR isspace_LF)

lemma split_normalizer: "split (normalizer s) = split s"
  unfolding split_def normalizer_def Let_def
  by (simp add: split_loop_re_sub [OF blank_lines_re_space] isspace_LF
        split_loop_replace_CR split_loop_replace_CRLF)

lemma split_resegment: "split (resegment s) = split s"
  unfolding split_def resegment_def
  by (simp add: split_loop_re_sub [OF sentence_re_space] isspace_LF)

lemma process_supernote_content_tokens:
  "process_supernote_content s = Inr (join '' '' (map wikify (split s)))"
proof -
  have "list_all is_token (map wikify (split s))"
    by (auto simp: list_all_iff intro: wikify_is_token split_is_token)
  then show ?thesis
    by (simp add: process_supernote_content_eq split_resegment split_normalizer strip_join)
qed

lemma process_text_of:
  assumes "gaps_and_tokens pieces" "list_all isspace trail"
  shows "process_supernote_content (text_of pieces @ trail) =
           Inr (join '' '' (map (\<lambda>(gap, token). wikify token) pieces))"
proof -
  have "map wikify (map snd pieces) = map (\<lambda>(gap, token). wikify token) pieces"
    by (induction pieces) auto
  then show ?thesis
    unfolding process_supernote_content_tokens split_text_of [OF assms] by (rule arg_cong)
qed

lemma text_of_exists:
  "\<exists>pieces trail. gaps_and_tokens pieces \<and> list_all isspace trail \<and> s = text_of pieces @ trail"
proof (induction s)
  case Nil
  have "gaps_and_tokens [] \<and> list_all isspace [] \<and> [] = text_of [] @ []"
    by (simp add: gaps_and_tokens_def)
  then show ?case by blast
next
  case (Cons x xs)
  then obtain ps trail where ps: "gaps_and_tokens ps" and tr: "list_all isspace trail"
    and xs: "xs = text_of ps @ trail"
    by blast
  show ?case
  proof (cases ps)
    case Nil
    show ?thesis
    proof (cases "isspace x")
      case True
      with Nil tr xs have "gaps_and_tokens [] \<and> list_all isspace (x # trail) \<and>
          x # xs = text_of [] @ (x # trail)"
        by (simp add: gaps_and_tokens_def)
      then show ?thesis by blast
    next
      case False
      with Nil tr xs have "gaps_and_tokens [([], [x])] \<and> list_all isspace trail \<and>
          x # xs = text_of [([], [x])] @ trail"
        by (simp add: gaps_and_tokens_def is_token_def)
      then show ?thesis by blast
    qed
  next
    case (Cons p rest)
    obtain g w where p: "p = (g, w)" by (cases p)
    from ps Cons p have g: "list_all isspace g" and w: "is_token w"
      and r: "list_all (\<lambda>(gap, token). list_all isspace gap \<and> is_token token) rest"
        "list_all (\<lambda>(gap, token). gap \<noteq> []) rest"
      by (simp_all add: gaps_and_tokens_def)
    show ?thesis
    proof (cases "isspace x")
      case True
      with g w r xs Cons p tr have "gaps_and_tokens ((x # g, w) # rest) \<and> list_all isspace trail \<and>
          x # xs = text_of ((x # g, w) # rest) @ trail"
        by (simp add: gaps_and_tokens_def)
      then show ?thesis by blast
    next
      case False
      show ?thesis
      proof (cases "g = []")
        case True
        with False w r xs Cons p tr have "gaps_and_tokens (([], x # w) # rest) \<and>
            list_all isspace trail \<and> x # xs = text_of (([], x # w) # rest) @ trail"
          by (simp add: gaps_and_tokens_def is_token_def)
        then show ?thesis by blast
      next
        case ne: False
        with False g w r xs Cons p tr have "gaps_and_tokens (([], [x]) # (g, w) # rest) \<and>
            list_all isspace trail \<and> x # xs = text_of (([], [x]) # (g, w) # rest) @ trail"
          by (simp add: gaps_and_tokens_def is_token_def)
        then show ?thesis by blast
      qed
    qed
  qed
qed

text \<open>
  C2. Whatever the input, the function returns a string with no newline in it, and every
  whitespace character of the result is a space. Every text is a sequence of tokens with
  whitespace before, between and after them, and on such a text the result is the
  processed tokens with one space between them and nothing around them, whatever the
  whitespace was: the paragraph breaks of line 42 and the empty lines that line 39 keeps
  are whitespace between tokens, so none of them reaches the result.
\<close>

theorem C2_no_newline_in_output:
  "(\<exists>out. process_supernote_content content = Inr out \<and> LF \<notin> set out \<and>
          list_all (\<lambda>c. c = CHR '' '' \<or> \<not> isspace c) out) \<and>
   (\<exists>pieces trail. gaps_and_tokens pieces \<and> list_all isspace trail \<and>
          content = text_of pieces @ trail) \<and>
   (gaps_and_tokens pieces \<and> list_all isspace trail \<longrightarrow>
      process_supernote_content (text_of pieces @ trail) =
        Inr (join '' '' (map (\<lambda>(gap, token). wikify token) pieces)))"
proof -
  obtain out where out: "process_supernote_content content = Inr out"
    by (simp add: process_supernote_content_eq)
  have "c = CHR '' '' \<or> \<not> isspace c" if "c \<in> set out" for c
    using out that by (rule output_chars)
  moreover from this [of LF] have "LF \<notin> set out"
    using isspace_LF by (auto simp: LF_def)
  ultimately have 1: "\<exists>out. process_supernote_content content = Inr out \<and> LF \<notin> set out \<and>
          list_all (\<lambda>c. c = CHR '' '' \<or> \<not> isspace c) out"
    using out by (auto simp: list_all_iff)
  have 3: "gaps_and_tokens pieces \<and> list_all isspace trail \<longrightarrow>
      process_supernote_content (text_of pieces @ trail) =
        Inr (join '' '' (map (\<lambda>(gap, token). wikify token) pieces))"
    by (intro impI, elim conjE) (rule process_text_of)
  show ?thesis by (intro conjI 1 3 text_of_exists)
qed

theorem C2_no_newline_witness:
  "process_supernote_content (''Hello world.'' @ [LF, LF, LF] @ ''Next'' @ [CR, LF] @ ''one. '') =
     Inr ''[[Hello]] world. [[Next]] one.'' \<and>
   LF \<notin> set ''[[Hello]] world. [[Next]] one.''"
proof -
  let ?pieces = "[([], ''Hello''), ('' '', ''world.''), ([LF, LF, LF], ''Next''), ([CR, LF], ''one.'')]"
  have h: "gaps_and_tokens ?pieces \<and> list_all isspace '' ''" by code_simp
  have t: "text_of ?pieces @ '' '' = ''Hello world.'' @ [LF, LF, LF] @ ''Next'' @ [CR, LF] @ ''one. ''"
    by simp
  have j: "join '' '' (map (\<lambda>(gap, token). wikify token) ?pieces) = ''[[Hello]] world. [[Next]] one.''"
    by code_simp
  have n: "LF \<notin> set ''[[Hello]] world. [[Next]] one.''" by code_simp
  have "process_supernote_content (text_of ?pieces @ '' '') =
      Inr (join '' '' (map (\<lambda>(gap, token). wikify token) ?pieces))"
    by (rule C2_no_newline_in_output [of _ ?pieces "'' ''", THEN conjunct2, THEN conjunct2, THEN mp, OF h])
  then have "process_supernote_content (''Hello world.'' @ [LF, LF, LF] @ ''Next'' @ [CR, LF] @ ''one. '') =
     Inr ''[[Hello]] world. [[Next]] one.''"
    unfolding t j .
  with n show ?thesis by (intro conjI)
qed

text \<open>
  C9. The function is total: on every string it returns a string and raises nothing.
  The loop body returns for every token, and so does the loop; the index
  \<open>clean_word[0]\<close> is read only behind the test that \<open>clean_word\<close> is not empty, and
  \<open>len(clean_word)\<close> never exceeds \<open>len(word)\<close>, so the slice starts inside the token.
\<close>

theorem C9_total:
  "(\<exists>out. process_supernote_content content = Inr out) \<and>
   (\<exists>out. process_word word = Inr out) \<and>
   (\<exists>out. process_words words processed_words = Inr out) \<and>
   length (clean_word_of word) \<le> length word"
  by (simp add: process_supernote_content_eq process_word_eq process_words_eq
        length_clean_word_of)

theorem C9_total_witness:
  "(\<exists>out. process_supernote_content ''?! ... A'' = Inr out) \<and>
   (\<exists>out. process_word ''?!'' = Inr out) \<and>
   (\<exists>out. process_words [''?!'', ''...'', ''A''] [] = Inr out) \<and>
   length (clean_word_of ''?!'') \<le> length ''?!''"
  by (rule C9_total)

section \<open>The pattern of line 39 and the normalizer\<close>

text \<open>
  What the backtracking matcher does on \<open>\n\s*\n\s*\n\<close>, in terms of the number of
  newlines in the whitespace a string starts with: the pattern matches at a newline whose
  whitespace run holds three newlines or more, and the match ends at the last newline of
  the run.
\<close>

lemma leading_newlines_Nil: "leading_newlines [] = 0"
  by (simp add: leading_newlines_def)

lemma leading_newlines_Cons:
  "leading_newlines (x # xs) =
     (if isspace x then (if x = LF then 1 else 0) + leading_newlines xs else 0)"
  unfolding leading_newlines_def by (cases "isspace x"; cases "x = LF"; simp)

lemma tail2_None:
  "match_here [Star isspace, One (\<lambda>c. c = LF)] prev t = None \<longleftrightarrow> leading_newlines t = 0"
proof (induction t arbitrary: prev)
  case Nil
  then show ?case by (simp add: leading_newlines_Nil)
next
  case (Cons x xs)
  show ?case
  proof (cases "isspace x")
    case True
    then show ?thesis
      using Cons.IH [of "Some x"]
      by (cases "match_here [Star isspace, One (\<lambda>c. c = LF)] (Some x) xs")
         (auto simp: leading_newlines_Cons)
  next
    case False
    with isspace_LF have "x \<noteq> LF" by auto
    with False show ?thesis by (simp add: leading_newlines_Cons)
  qed
qed

lemma tail2_Some:
  "match_here [Star isspace, One (\<lambda>c. c = LF)] prev t = Some r \<Longrightarrow>
     leading_newlines r = 0 \<and> length r < length t"
proof (induction t arbitrary: prev)
  case Nil
  then show ?case by simp
next
  case (Cons x xs)
  show ?case
  proof (cases "match_here [Star isspace, One (\<lambda>c. c = LF)] (Some x) xs")
    case None
    with Cons.prems have "r = xs" by (auto split: if_splits)
    with None show ?thesis by (simp add: tail2_None)
  next
    case (Some r')
    with Cons.prems have "r' = r \<or> r = xs \<and> \<not> isspace x \<and> x = LF"
      by (auto split: if_splits)
    with Some Cons.IH [of "Some x"] isspace_LF show ?thesis by force
  qed
qed

lemma tail4_None:
  "match_here [Star isspace, One (\<lambda>c. c = LF), Star isspace, One (\<lambda>c. c = LF)] prev t = None
     \<longleftrightarrow> leading_newlines t < 2"
proof (induction t arbitrary: prev)
  case Nil
  then show ?case by (simp add: leading_newlines_Nil)
next
  case (Cons x xs)
  let ?p = "[Star isspace, One (\<lambda>c. c = LF), Star isspace, One (\<lambda>c. c = LF)]"
  show ?case
  proof (cases "isspace x")
    case True
    then show ?thesis
      using Cons.IH [of "Some x"] tail2_None [of "Some x" xs]
      by (cases "match_here ?p (Some x) xs") (auto simp: leading_newlines_Cons)
  next
    case False
    with isspace_LF have "x \<noteq> LF" by auto
    with False show ?thesis by (simp add: leading_newlines_Cons)
  qed
qed

lemma tail4_Some:
  "match_here [Star isspace, One (\<lambda>c. c = LF), Star isspace, One (\<lambda>c. c = LF)] prev t = Some r
     \<Longrightarrow> leading_newlines r = 0 \<and> length r < length t"
proof (induction t arbitrary: prev)
  case Nil
  then show ?case by simp
next
  case (Cons x xs)
  let ?p = "[Star isspace, One (\<lambda>c. c = LF), Star isspace, One (\<lambda>c. c = LF)]"
  show ?case
  proof (cases "isspace x \<and> match_here ?p (Some x) xs \<noteq> None")
    case True
    with Cons.prems have "match_here ?p (Some x) xs = Some r" by auto
    from Cons.IH [OF this] show ?thesis by simp
  next
    case False
    with Cons.prems have "match_here [Star isspace, One (\<lambda>c. c = LF)] (Some x) xs = Some r"
      by (auto split: if_splits)
    from tail2_Some [OF this] show ?thesis by simp
  qed
qed

lemma blank_lines_re_Cons:
  "match_here blank_lines_re prev (x # xs) =
     (if x = LF
      then match_here [Star isspace, One (\<lambda>c. c = LF), Star isspace, One (\<lambda>c. c = LF)] (Some x) xs
      else None)"
  by (simp add: blank_lines_re_def)

lemma blank_lines_re_Nil: "match_here blank_lines_re prev [] = None"
  by (simp add: blank_lines_re_def)

lemma blank_lines_re_None:
  "match_here blank_lines_re prev s = None \<longleftrightarrow> \<not> (prefix [LF] s \<and> 3 \<le> leading_newlines s)"
proof (cases s)
  case Nil
  then show ?thesis by (simp add: blank_lines_re_Nil)
next
  case (Cons x xs)
  then show ?thesis
    by (auto simp: blank_lines_re_Cons tail4_None leading_newlines_Cons isspace_LF)
qed

lemma blank_lines_re_Some:
  assumes "match_here blank_lines_re prev s = Some r"
  shows "leading_newlines r = 0 \<and> length r < length s"
proof (cases s)
  case Nil
  with assms show ?thesis by (simp add: blank_lines_re_Nil)
next
  case (Cons x xs)
  with assms have "match_here [Star isspace, One (\<lambda>c. c = LF), Star isspace, One (\<lambda>c. c = LF)] (Some x) xs = Some r"
    by (simp add: blank_lines_re_Cons split: if_splits)
  from tail4_Some [OF this] Cons show ?thesis by simp
qed

lemma sub_blank_None:
  "match_here blank_lines_re prev (x # xs) = None \<Longrightarrow>
     re_sub blank_lines_re repl prev (x # xs) = x # re_sub blank_lines_re repl (Some x) xs"
  by simp

lemma sub_blank_Some:
  assumes "match_here blank_lines_re prev (x # xs) = Some r"
  shows "\<exists>prev'. re_sub blank_lines_re repl prev (x # xs) = repl @ re_sub blank_lines_re repl prev' r"
proof -
  from blank_lines_re_Some [OF assms] have "length r < Suc (length xs)" by simp
  with assms show ?thesis by auto
qed

lemma sub_blank_prev:
  "re_sub blank_lines_re repl prev s = re_sub blank_lines_re repl prev' s"
proof (induction "length s" arbitrary: s prev prev' rule: less_induct)
  case less
  show ?case
  proof (cases s)
    case Nil
    then show ?thesis by (simp add: blank_lines_re_Nil)
  next
    case (Cons x xs)
    have m: "match_here blank_lines_re prev (x # xs) = match_here blank_lines_re prev' (x # xs)"
      by (simp add: blank_lines_re_Cons)
    show ?thesis
    proof (cases "match_here blank_lines_re prev (x # xs)")
      case None
      with m Cons less [of xs "Some x" "Some x"] show ?thesis by simp
    next
      case (Some r)
      from blank_lines_re_Some [OF Some] have len: "length r < Suc (length xs)" by simp
      with Cons have "length r < length s" by simp
      from less [OF this] have
        "re_sub blank_lines_re repl (Some ((x # xs) ! (length xs - length r))) r =
         re_sub blank_lines_re repl p r" for p .
      with Some m len Cons show ?thesis by simp
    qed
  qed
qed

lemma leading_newlines_le_2_append:
  "leading_newlines (LF # LF # t) = 2 + leading_newlines t"
  by (simp add: leading_newlines_Cons isspace_LF)

lemma leading_newlines_sub_blank:
  "leading_newlines (re_sub blank_lines_re [LF, LF] prev s) \<le> leading_newlines s"
proof (induction "length s" arbitrary: s prev rule: less_induct)
  case less
  show ?case
  proof (cases s)
    case Nil
    then show ?thesis by (simp add: blank_lines_re_Nil)
  next
    case (Cons x xs)
    show ?thesis
    proof (cases "match_here blank_lines_re prev (x # xs)")
      case None
      have "leading_newlines (re_sub blank_lines_re [LF, LF] (Some x) xs) \<le> leading_newlines xs"
        using less [of xs] Cons by simp
      with None Cons show ?thesis
        by (simp add: sub_blank_None leading_newlines_Cons)
    next
      case (Some r)
      from blank_lines_re_Some [OF Some] have r: "leading_newlines r = 0" "length r < length s"
        using Cons by simp_all
      from Some have "3 \<le> leading_newlines s"
        using blank_lines_re_None [of prev s] Cons by auto
      moreover obtain p where
        "re_sub blank_lines_re [LF, LF] prev (x # xs) = [LF, LF] @ re_sub blank_lines_re [LF, LF] p r"
        using sub_blank_Some [OF Some] by blast
      moreover have "leading_newlines (re_sub blank_lines_re [LF, LF] p r) \<le> 0"
        using less [OF r(2), of p] r(1) by simp
      ultimately show ?thesis using Cons
        by (simp add: leading_newlines_le_2_append)
    qed
  qed
qed

lemma blank_ok_leading: "blank_ok t \<Longrightarrow> leading_newlines t \<le> 2"
  by (cases t) (simp_all add: leading_newlines_Nil)

lemma blank_ok_sub_blank: "blank_ok (re_sub blank_lines_re [LF, LF] prev s)"
proof (induction "length s" arbitrary: s prev rule: less_induct)
  case less
  show ?case
  proof (cases s)
    case Nil
    then show ?thesis by (simp add: blank_lines_re_Nil)
  next
    case (Cons x xs)
    let ?f = "re_sub blank_lines_re [LF, LF]"
    show ?thesis
    proof (cases "match_here blank_lines_re prev (x # xs)")
      case None
      have ok: "blank_ok (?f (Some x) xs)" using less [of xs] Cons by simp
      have le: "leading_newlines (?f (Some x) xs) \<le> leading_newlines xs"
        by (rule leading_newlines_sub_blank)
      have "leading_newlines (x # ?f (Some x) xs) \<le> 2"
      proof (cases "x = LF")
        case True
        with None have "leading_newlines (x # xs) < 3"
          using blank_lines_re_None [of prev "x # xs"] by auto
        with True le show ?thesis by (simp add: leading_newlines_Cons isspace_LF)
      next
        case False
        with blank_ok_leading [OF ok] show ?thesis by (simp add: leading_newlines_Cons)
      qed
      with ok None Cons show ?thesis by (simp add: sub_blank_None)
    next
      case (Some r)
      from blank_lines_re_Some [OF Some] have r: "leading_newlines r = 0" "length r < length s"
        using Cons by simp_all
      obtain p where eq: "?f prev (x # xs) = [LF, LF] @ ?f p r"
        using sub_blank_Some [OF Some] by blast
      have ok: "blank_ok (?f p r)" using less [OF r(2)] .
      have "leading_newlines (?f p r) = 0"
        using leading_newlines_sub_blank [of p r] r(1) by simp
      with ok eq Cons show ?thesis
        by (simp add: leading_newlines_Cons isspace_LF)
    qed
  qed
qed

lemma sub_blank_ident: "blank_ok t \<Longrightarrow> re_sub blank_lines_re repl prev t = t"
proof (induction t arbitrary: prev)
  case Nil
  then show ?case by (simp add: blank_lines_re_Nil)
next
  case (Cons x xs)
  then have "leading_newlines (x # xs) \<le> 2" and "blank_ok xs" by simp_all
  then have "match_here blank_lines_re prev (x # xs) = None"
    by (simp add: blank_lines_re_None)
  with Cons.IH [OF \<open>blank_ok xs\<close>] show ?case by (simp add: sub_blank_None)
qed

lemma blank_ok_drop: "blank_ok t \<Longrightarrow> blank_ok (drop i t)"
proof (induction t arbitrary: i)
  case Nil
  then show ?case by simp
next
  case (Cons x xs)
  then show ?case by (cases i) simp_all
qed

lemma str_replace_no_CR: "CR \<notin> set s \<Longrightarrow> str_replace (CR # old) new s = s"
  by (induction s) auto

lemma str_replace_CR: "CR \<notin> set (str_replace [CR] [LF] s)"
  by (induction s) (auto simp: CR_def LF_def)

lemma sub_blank_no_CR: "CR \<notin> set s \<Longrightarrow> CR \<notin> set (re_sub blank_lines_re [LF, LF] prev s)"
  using set_re_sub [of blank_lines_re "[LF, LF]" prev s] by (auto simp: CR_def LF_def)

lemma normalizer_no_CR_input: "CR \<notin> set s \<Longrightarrow> normalizer s = re_sub blank_lines_re [LF, LF] None s"
  by (simp add: normalizer_def str_replace_no_CR)

lemma normalizer_no_CR: "CR \<notin> set (normalizer s)"
  by (simp add: normalizer_def sub_blank_no_CR str_replace_CR)

lemma blank_ok_normalizer: "blank_ok (normalizer s)"
  by (simp add: normalizer_def blank_ok_sub_blank)

lemma leading_newlines_append:
  "list_all isspace ws \<Longrightarrow> leading_newlines (ws @ b) = count_list ws LF + leading_newlines b"
  by (induction ws) (auto simp: leading_newlines_Cons)

lemma tail2_run:
  assumes "ws \<noteq> []" "list_all isspace ws" "last ws = LF" "leading_newlines b = 0"
  shows "match_here [Star isspace, One (\<lambda>c. c = LF)] prev (ws @ b) = Some b"
  using assms
proof (induction ws arbitrary: prev)
  case Nil
  then show ?case by simp
next
  case (Cons x ws)
  show ?case
  proof (cases "ws = []")
    case True
    with Cons.prems have "x = LF" by simp
    moreover have "match_here [Star isspace, One (\<lambda>c. c = LF)] (Some x) b = None"
      using Cons.prems(4) by (simp add: tail2_None)
    ultimately show ?thesis using True by (simp add: isspace_LF)
  next
    case False
    with Cons.prems have "match_here [Star isspace, One (\<lambda>c. c = LF)] (Some x) (ws @ b) = Some b"
      by (intro Cons.IH) simp_all
    with Cons.prems(2) show ?thesis by simp
  qed
qed

lemma tail4_run:
  assumes "list_all isspace ws" "last ws = LF" "2 \<le> count_list ws LF" "leading_newlines b = 0"
  shows "match_here [Star isspace, One (\<lambda>c. c = LF), Star isspace, One (\<lambda>c. c = LF)] prev (ws @ b)
           = Some b"
  using assms
proof (induction ws arbitrary: prev)
  case Nil
  then show ?case by simp
next
  case (Cons x ws)
  let ?p = "[Star isspace, One (\<lambda>c. c = LF), Star isspace, One (\<lambda>c. c = LF)]"
  from Cons.prems(1) have sp: "isspace x" "list_all isspace ws" by simp_all
  show ?case
  proof (cases "2 \<le> count_list ws LF")
    case True
    then have "ws \<noteq> []" by auto
    with Cons.prems(2) have "last ws = LF" by simp
    from Cons.IH [OF sp(2) this True Cons.prems(4)]
    have "match_here ?p (Some x) (ws @ b) = Some b" .
    with sp(1) show ?thesis by simp
  next
    case False
    with Cons.prems(3) have x: "x = LF" and c: "count_list ws LF = 1"
      by (auto split: if_splits)
    from c have ne: "ws \<noteq> []" by auto
    with Cons.prems(2) have l: "last ws = LF" by simp
    have "leading_newlines (ws @ b) < 2"
      using leading_newlines_append [OF sp(2), of b] c Cons.prems(4) by simp
    then have "match_here ?p (Some x) (ws @ b) = None" by (simp add: tail4_None)
    moreover have "match_here [Star isspace, One (\<lambda>c. c = LF)] (Some x) (ws @ b) = Some b"
      using ne sp(2) l Cons.prems(4) by (rule tail2_run)
    ultimately show ?thesis using sp(1) x by simp
  qed
qed

lemma blank_lines_re_run:
  assumes "list_all isspace ws" "hd ws = LF" "last ws = LF" "3 \<le> count_list ws LF"
    and "leading_newlines b = 0"
  shows "match_here blank_lines_re prev (ws @ b) = Some b"
proof (cases ws)
  case Nil
  with assms(4) show ?thesis by simp
next
  case (Cons x ws')
  with assms(2) have x: "x = LF" by simp
  with assms(4) Cons have c: "2 \<le> count_list ws' LF" by simp
  then have "ws' \<noteq> []" by auto
  with assms(3) Cons have l: "last ws' = LF" by simp
  from assms(1) Cons have "list_all isspace ws'" by simp
  from tail4_run [OF this l c assms(5)] x Cons show ?thesis
    by (simp add: blank_lines_re_Cons)
qed

lemma sub_blank_skip:
  "LF \<notin> set a \<Longrightarrow>
     re_sub blank_lines_re repl prev (a @ t) = a @ re_sub blank_lines_re repl prev t"
proof (induction a arbitrary: prev)
  case Nil
  then show ?case by simp
next
  case (Cons x a)
  then have "match_here blank_lines_re prev (x # a @ t) = None"
    by (auto simp: blank_lines_re_Cons)
  with Cons show ?case
    using sub_blank_prev [of repl "Some x" t prev] by simp
qed

lemma sub_blank_run:
  assumes "list_all isspace ws" "hd ws = LF" "last ws = LF" "3 \<le> count_list ws LF"
    and "leading_newlines b = 0"
  shows "re_sub blank_lines_re repl prev (ws @ b) = repl @ re_sub blank_lines_re repl prev b"
proof -
  from assms(4) obtain x ws' where ws: "ws = x # ws'" by (cases ws) auto
  have "match_here blank_lines_re prev (x # ws' @ b) = Some b"
    using blank_lines_re_run [OF assms, of prev] ws by simp
  from sub_blank_Some [OF this, of repl] ws show ?thesis
    using sub_blank_prev [of repl _ b prev] by auto
qed

lemma normalizer_suffix_newlines: "leading_newlines (drop i (normalizer s)) \<le> 2"
  using blank_ok_normalizer by (intro blank_ok_leading blank_ok_drop)

lemma normalizer_no_three_newlines: "normalizer s \<noteq> u @ [LF, LF, LF] @ v"
proof
  assume eq: "normalizer s = u @ [LF, LF, LF] @ v"
  have "leading_newlines (drop (length u) (normalizer s)) \<le> 2"
    by (rule normalizer_suffix_newlines)
  with eq show False by (simp add: leading_newlines_Cons isspace_LF)
qed

lemma tail2_append:
  assumes "a \<noteq> []" "\<not> isspace (last a)"
  shows "match_here [Star isspace, One (\<lambda>c. c = LF)] prev (a @ t) =
           map_option (\<lambda>r. r @ t) (match_here [Star isspace, One (\<lambda>c. c = LF)] prev a)"
  using assms
proof (induction a arbitrary: prev)
  case Nil
  then show ?case by simp
next
  case (Cons x a)
  show ?case
  proof (cases "a = []")
    case True
    with Cons.prems have "\<not> isspace x" by simp
    moreover from this isspace_LF have "x \<noteq> LF" by auto
    ultimately show ?thesis using True by simp
  next
    case False
    with Cons.prems have "\<not> isspace (last a)" by simp
    from Cons.IH [OF False this, of "Some x"] show ?thesis
      by (cases "match_here [Star isspace, One (\<lambda>c. c = LF)] (Some x) a") simp_all
  qed
qed

lemma tail4_append:
  assumes "a \<noteq> []" "\<not> isspace (last a)"
  shows "match_here [Star isspace, One (\<lambda>c. c = LF), Star isspace, One (\<lambda>c. c = LF)] prev (a @ t) =
           map_option (\<lambda>r. r @ t)
             (match_here [Star isspace, One (\<lambda>c. c = LF), Star isspace, One (\<lambda>c. c = LF)] prev a)"
  using assms
proof (induction a arbitrary: prev)
  case Nil
  then show ?case by simp
next
  case (Cons x a)
  let ?p = "[Star isspace, One (\<lambda>c. c = LF), Star isspace, One (\<lambda>c. c = LF)]"
  show ?case
  proof (cases "a = []")
    case True
    with Cons.prems have "\<not> isspace x" by simp
    moreover from this isspace_LF have "x \<noteq> LF" by auto
    ultimately show ?thesis using True by simp
  next
    case False
    with Cons.prems have l: "\<not> isspace (last a)" by simp
    from Cons.IH [OF False l, of "Some x"] tail2_append [OF False l, of "Some x" t]
    show ?thesis
      by (cases "match_here ?p (Some x) a") auto
  qed
qed

lemma blank_lines_re_append:
  assumes "a \<noteq> []" "\<not> isspace (last a)"
  shows "match_here blank_lines_re prev (a @ t) =
           map_option (\<lambda>r. r @ t) (match_here blank_lines_re prev a)"
proof -
  from assms(1) obtain x a' where a: "a = x # a'" by (cases a) auto
  show ?thesis
  proof (cases "a' = []")
    case True
    with assms a have "\<not> isspace x" by simp
    with isspace_LF have "x \<noteq> LF" by auto
    with a True show ?thesis by (simp add: blank_lines_re_Cons)
  next
    case False
    with assms a have "\<not> isspace (last a')" by simp
    from tail4_append [OF False this, of "Some x" t] a show ?thesis
      by (auto simp: blank_lines_re_Cons)
  qed
qed

lemma sub_blank_append:
  "a = [] \<or> \<not> isspace (last a) \<Longrightarrow>
     re_sub blank_lines_re repl prev (a @ t) =
       re_sub blank_lines_re repl prev a @ re_sub blank_lines_re repl prev t"
proof (induction "length a" arbitrary: a prev rule: less_induct)
  case less
  let ?f = "re_sub blank_lines_re repl"
  show ?case
  proof (cases a)
    case Nil
    then show ?thesis by (simp add: blank_lines_re_Nil)
  next
    case (Cons x a')
    with less.prems have ne: "a \<noteq> []" and l: "\<not> isspace (last a)" by simp_all
    note m = blank_lines_re_append [OF ne l, of prev t]
    show ?thesis
    proof (cases "match_here blank_lines_re prev a")
      case None
      with m have n: "match_here blank_lines_re prev (x # a' @ t) = None"
        "match_here blank_lines_re prev (x # a') = None"
        using Cons by simp_all
      have "a' = [] \<or> \<not> isspace (last a')" using l Cons by (auto split: if_splits)
      then have "?f (Some x) (a' @ t) = ?f (Some x) a' @ ?f (Some x) t"
        using less.hyps [of a' "Some x"] Cons by simp
      also have "?f (Some x) t = ?f prev t" by (rule sub_blank_prev)
      finally show ?thesis using n Cons by (simp add: sub_blank_None)
    next
      case (Some r)
      with m Cons have s: "match_here blank_lines_re prev (x # a' @ t) = Some (r @ t)"
        "match_here blank_lines_re prev (x # a') = Some r"
        by simp_all
      from blank_lines_re_Some [OF s(2)] have len: "length r < length a" using Cons by simp
      from match_here_suffix [OF s(2)] obtain u where u: "x # a' = u @ r"
        by (auto simp: suffix_def)
      have "r = [] \<or> \<not> isspace (last r)"
      proof (cases "r = []")
        case True
        then show ?thesis ..
      next
        case False
        with u have "last r = last a" using Cons by (metis last_appendR)
        with l show ?thesis by simp
      qed
      from less.hyps [OF len this] have ih: "?f p (r @ t) = ?f p r @ ?f p t" for p .
      obtain p1 where 1: "?f prev (x # a' @ t) = repl @ ?f p1 (r @ t)"
        using sub_blank_Some [OF s(1)] by blast
      obtain p2 where 2: "?f prev (x # a') = repl @ ?f p2 r"
        using sub_blank_Some [OF s(2)] by blast
      have "?f p1 (r @ t) = ?f p2 r @ ?f prev t"
        using ih [of p1] sub_blank_prev [of repl p1 r p2] sub_blank_prev [of repl p1 t prev]
        by simp
      with 1 2 Cons show ?thesis by simp
    qed
  qed
qed

lemma sub_blank_no_newline: "LF \<notin> set a \<Longrightarrow> re_sub blank_lines_re repl prev a = a"
  using sub_blank_skip [of a repl prev "[]"] by (simp add: blank_lines_re_Nil)

lemma sub_blank_split:
  assumes "leading_newlines (rev a) = 0"
  shows "re_sub blank_lines_re repl prev (a @ t) =
           re_sub blank_lines_re repl prev a @ re_sub blank_lines_re repl prev t"
proof -
  let ?f = "re_sub blank_lines_re repl prev"
  define a1 where "a1 = rev (dropWhile isspace (rev a))"
  define a2 where "a2 = rev (takeWhile isspace (rev a))"
  have a: "a = a1 @ a2"
    unfolding a1_def a2_def rev_append [symmetric] by simp
  have "filter (\<lambda>c. c = LF) (takeWhile isspace (rev a)) = []"
    using assms by (simp add: leading_newlines_def)
  then have a2: "LF \<notin> set a2" by (auto simp: a2_def filter_empty_conv)
  have a1: "a1 = [] \<or> \<not> isspace (last a1)"
  proof (cases "dropWhile isspace (rev a)")
    case Nil
    then show ?thesis by (simp add: a1_def)
  next
    case (Cons y ys)
    then have "\<not> isspace y" using hd_dropWhile [of isspace "rev a"] by auto
    with Cons show ?thesis by (simp add: a1_def)
  qed
  have "?f (a @ t) = ?f (a1 @ (a2 @ t))" by (simp add: a)
  also have "\<dots> = ?f a1 @ ?f (a2 @ t)" using a1 by (rule sub_blank_append)
  also have "?f (a2 @ t) = a2 @ ?f t" using a2 by (rule sub_blank_skip)
  finally have 1: "?f (a @ t) = ?f a1 @ a2 @ ?f t" .
  have "?f a = ?f a1 @ ?f a2" unfolding a using a1 by (rule sub_blank_append)
  also have "?f a2 = a2" using a2 by (rule sub_blank_no_newline)
  finally show ?thesis using 1 by simp
qed

lemma normalizer_run_general:
  assumes "CR \<notin> set (a @ ws @ b)" "leading_newlines (rev a) = 0"
    and "list_all isspace ws" "hd ws = LF" "last ws = LF" "3 \<le> count_list ws LF"
    and "leading_newlines b = 0"
  shows "normalizer (a @ ws @ b) = normalizer a @ [LF, LF] @ normalizer b"
proof -
  let ?f = "re_sub blank_lines_re [LF, LF] None"
  from assms(1) have "CR \<notin> set a" "CR \<notin> set b" by simp_all
  then have "normalizer a = ?f a" "normalizer b = ?f b"
    by (simp_all add: normalizer_no_CR_input)
  moreover have "normalizer (a @ ws @ b) = ?f (a @ ws @ b)"
    using assms(1) by (rule normalizer_no_CR_input)
  moreover have "?f (a @ ws @ b) = ?f a @ ?f (ws @ b)"
    using assms(2) by (rule sub_blank_split)
  moreover have "?f (ws @ b) = [LF, LF] @ ?f b"
    using assms(3-7) by (rule sub_blank_run)
  ultimately show ?thesis by simp
qed

lemma unify_True: "\<not> prefix [LF] s \<Longrightarrow> unify True s = unify False s"
  by (cases s) auto

lemma unify_replace:
  "str_replace [CR] [LF] (str_replace [CR, LF] [LF] s) = unify False s"
proof (induction "length s" arbitrary: s rule: less_induct)
  case less
  show ?case
  proof (cases s)
    case Nil
    then show ?thesis by simp
  next
    case (Cons x xs)
    show ?thesis
    proof (cases "prefix [CR, LF] (x # xs)")
      case True
      then obtain t where t: "x # xs = CR # LF # t" by (auto simp: prefix_def)
      have "str_replace [CR] [LF] (str_replace [CR, LF] [LF] t) = unify False t"
        using less [of t] Cons t by simp
      with t Cons show ?thesis by (auto simp: CR_def LF_def)
    next
      case False
      have ih: "str_replace [CR] [LF] (str_replace [CR, LF] [LF] xs) = unify False xs"
        using less [of xs] Cons by simp
      from False have r: "str_replace [CR, LF] [LF] (x # xs) = x # str_replace [CR, LF] [LF] xs"
        by auto
      show ?thesis
      proof (cases "x = CR")
        case True
        with False have "\<not> prefix [LF] xs" by auto
        then have "unify True xs = unify False xs" by (rule unify_True)
        with True ih r Cons show ?thesis by simp
      next
        case False
        with ih r Cons show ?thesis by simp
      qed
    qed
  qed
qed

lemma normalizer_unified: "normalizer s = re_sub blank_lines_re [LF, LF] None (unified s)"
  by (simp add: normalizer_def unified_def unify_replace)

lemma unified_no_CR: "CR \<notin> set (unified s)"
  using str_replace_CR [of "str_replace [CR, LF] [LF] s"] by (simp add: unify_replace unified_def)

lemma normalizer_run_unified:
  assumes "unified content = a @ ws @ b" "leading_newlines (rev a) = 0"
    and "list_all isspace ws" "hd ws = LF" "last ws = LF" "3 \<le> count_list ws LF"
    and "leading_newlines b = 0"
  shows "normalizer content = normalizer a @ [LF, LF] @ normalizer b"
proof -
  from unified_no_CR [of content] assms(1) have cr: "CR \<notin> set (a @ ws @ b)" by simp
  have "normalizer content = normalizer (a @ ws @ b)"
    using cr by (simp add: normalizer_unified [of content] assms(1) normalizer_no_CR_input)
  also have "\<dots> = normalizer a @ [LF, LF] @ normalizer b"
    using cr assms(2-7) by (rule normalizer_run_general)
  finally show ?thesis .
qed

lemma normalizer_keep: "blank_ok (unified content) \<Longrightarrow> normalizer content = unified content"
  by (simp add: normalizer_unified sub_blank_ident)

text \<open>
  C6. Take any text, and its line endings unified. A run of whitespace there that starts
  with a newline, ends with a newline and holds three newlines or more (two empty lines
  or more, hence three empty lines or more as well) becomes two newlines, that is one
  empty line, wherever the run stands: the text before it and the text after it are
  normalized on their own. The run is taken whole, so the whitespace next to it on either
  side holds no newline. A text with no such run is returned with its line endings
  unified and nothing else changed. In the result, whatever the input, no whitespace run
  holds more than two newlines, so three newlines never follow each other. On
  \<open>"a\n\n\n\nb"\<close> the result is \<open>"a\n\nb"\<close>, and so it is when the four line ends are
  \<open>\r\n\<close>, \<open>\r\n\<close>, \<open>\r\<close> and \<open>\r\n\<close>, or four times \<open>\r\<close>.
\<close>

theorem C6_blank_lines_collapse:
  "(unified content = a @ ws @ b \<and> leading_newlines (rev a) = 0 \<and>
    list_all isspace ws \<and> hd ws = LF \<and> last ws = LF \<and> 3 \<le> count_list ws LF \<and>
    leading_newlines b = 0
      \<longrightarrow> normalizer content = normalizer a @ [LF, LF] @ normalizer b) \<and>
   (blank_ok (unified content) \<longrightarrow> normalizer content = unified content) \<and>
   leading_newlines (drop i (normalizer s)) \<le> 2 \<and>
   normalizer s \<noteq> u @ [LF, LF, LF] @ v \<and>
   normalizer (''a'' @ [LF, LF, LF, LF] @ ''b'') = ''a'' @ [LF, LF] @ ''b'' \<and>
   normalizer (''a'' @ [CR, LF, CR, LF, CR, CR, LF] @ ''b'') = ''a'' @ [LF, LF] @ ''b'' \<and>
   normalizer (''a'' @ [CR, CR, CR, CR] @ ''b'') = ''a'' @ [LF, LF] @ ''b''"
proof -
  have ex: "normalizer (''a'' @ [LF, LF, LF, LF] @ ''b'') = ''a'' @ [LF, LF] @ ''b''"
    "normalizer (''a'' @ [CR, LF, CR, LF, CR, CR, LF] @ ''b'') = ''a'' @ [LF, LF] @ ''b''"
    "normalizer (''a'' @ [CR, CR, CR, CR] @ ''b'') = ''a'' @ [LF, LF] @ ''b''"
    by code_simp+
  have 1: "unified content = a @ ws @ b \<and> leading_newlines (rev a) = 0 \<and>
    list_all isspace ws \<and> hd ws = LF \<and> last ws = LF \<and> 3 \<le> count_list ws LF \<and>
    leading_newlines b = 0
      \<longrightarrow> normalizer content = normalizer a @ [LF, LF] @ normalizer b"
    by (intro impI, elim conjE) (rule normalizer_run_unified)
  have 2: "blank_ok (unified content) \<longrightarrow> normalizer content = unified content"
    by (intro impI) (rule normalizer_keep)
  show ?thesis
    by (intro conjI 1 2 ex normalizer_suffix_newlines normalizer_no_three_newlines)
qed

theorem C6_blank_lines_witness:
  "normalizer (''x'' @ [CR, LF, CR, LF, LF] @ ''y '' @ [CR, CHR '' '', CR, LF, CR, CR] @
               ''b'' @ [LF, LF] @ ''c'') =
     ''x'' @ [LF, LF] @ ''y '' @ [LF, LF] @ ''b'' @ [LF, LF] @ ''c'' \<and>
   normalizer (''p'' @ [CR, LF] @ ''q'' @ [CR, CR] @ ''r'') = ''p'' @ [LF] @ ''q'' @ [LF, LF] @ ''r''"
proof -
  let ?c = "''x'' @ [CR, LF, CR, LF, LF] @ ''y '' @ [CR, CHR '' '', CR, LF, CR, CR] @
            ''b'' @ [LF, LF] @ ''c''"
  let ?a = "''x'' @ [LF, LF, LF] @ ''y ''"
  let ?ws = "[LF, CHR '' '', LF, LF, LF]"
  let ?b = "''b'' @ [LF, LF] @ ''c''"
  let ?d = "''p'' @ [CR, LF] @ ''q'' @ [CR, CR] @ ''r''"
  have 0: "unified ?c = ?a @ ?ws @ ?b" by code_simp
  have 2: "leading_newlines (rev ?a) = 0" by code_simp
  have 3: "list_all isspace ?ws" by code_simp
  have 4: "hd ?ws = LF" "last ?ws = LF" by simp_all
  have 5: "(3::nat) \<le> count_list ?ws LF" by code_simp
  have 6: "leading_newlines ?b = 0" by code_simp
  have 7: "normalizer ?a = ''x'' @ [LF, LF] @ ''y ''" by code_simp
  have 8: "normalizer ?b = ?b" by code_simp
  have h: "unified ?c = ?a @ ?ws @ ?b \<and> leading_newlines (rev ?a) = 0 \<and>
      list_all isspace ?ws \<and> hd ?ws = LF \<and> last ?ws = LF \<and> 3 \<le> count_list ?ws LF \<and>
      leading_newlines ?b = 0"
    by (intro conjI 0 2 3 4 5 6)
  have "normalizer ?c = normalizer ?a @ [LF, LF] @ normalizer ?b"
    by (rule C6_blank_lines_collapse [of ?c ?a ?ws ?b, THEN conjunct1, THEN mp, OF h])
  then have A: "normalizer ?c = (''x'' @ [LF, LF] @ ''y '') @ [LF, LF] @ ?b"
    unfolding 7 8 .
  have k: "blank_ok (unified ?d)" by code_simp
  have u: "unified ?d = ''p'' @ [LF] @ ''q'' @ [LF, LF] @ ''r''" by code_simp
  have "normalizer ?d = unified ?d"
    by (rule C6_blank_lines_collapse [of ?d, THEN conjunct2, THEN conjunct1, THEN mp, OF k])
  then have B: "normalizer ?d = ''p'' @ [LF] @ ''q'' @ [LF, LF] @ ''r''"
    unfolding u .
  from A B show ?thesis by simp
qed

text \<open>
  C7. The normalizer is idempotent: applied to its own result it changes nothing.
\<close>

theorem C7_normalizer_idempotent: "normalizer (normalizer s) = normalizer s"
  using normalizer_no_CR [of s] blank_ok_normalizer [of s]
  by (simp add: normalizer_no_CR_input sub_blank_ident)

theorem C7_normalizer_idempotent_witness:
  "normalizer (normalizer (''a'' @ [CR, LF, CR, CR] @ ''b'')) = normalizer (''a'' @ [CR, LF, CR, CR] @ ''b'')"
  by (rule C7_normalizer_idempotent)

text \<open>
  C8. Whatever the input, with \<open>\r\n\<close> or a lone \<open>\r\<close> in it or not, the result has no
  carriage return, and neither has the text that leaves the normalizer.
\<close>

theorem C8_no_carriage_return_in_output:
  "(\<exists>out. process_supernote_content content = Inr out \<and> CR \<notin> set out) \<and>
   CR \<notin> set (normalizer content)"
proof -
  obtain out where out: "process_supernote_content content = Inr out"
    by (simp add: process_supernote_content_eq)
  have "CR \<notin> set out"
    using output_chars [OF out, of CR] isspace_CR by (auto simp: CR_def)
  with out normalizer_no_CR [of content] show ?thesis by blast
qed

theorem C8_no_carriage_return_witness:
  "(\<exists>out. process_supernote_content (''one'' @ [CR, LF] @ ''two'' @ [CR] @ ''three'') = Inr out \<and>
          CR \<notin> set out) \<and>
   CR \<notin> set (normalizer (''one'' @ [CR, LF] @ ''two'' @ [CR] @ ''three''))"
  by (rule C8_no_carriage_return_in_output)

section \<open>The linking rule\<close>

lemma wrapped_neq: "wrapped word \<noteq> word"
proof
  assume "wrapped word = word"
  then have "length (wrapped word) = length word" by simp
  moreover have "length (clean_word_of word) \<le> length word" by (rule length_clean_word_of)
  ultimately show False by (simp add: wrapped_def)
qed

text \<open>
  C3. The loop body wraps a token exactly when its clean word is not empty, starts with an
  uppercase character, is not on the stoplist, is not entirely uppercase and has more
  than one character; otherwise it leaves the token as it is. The function applies this to
  every token of the text, and maps \<open>"The Quick Brown fox jumps."\<close> to
  \<open>"The [[Quick]] [[Brown]] fox jumps."\<close>.
\<close>

theorem C3_wrapping_rule:
  "process_word word = Inr (if should_wrap (clean_word_of word) then wrapped word else word) \<and>
   (process_word word = Inr (wrapped word) \<longleftrightarrow> should_wrap (clean_word_of word)) \<and>
   process_supernote_content content =
     Inr (strip (join '' '' (map wikify (split (resegment (normalizer content)))))) \<and>
   process_supernote_content ''The Quick Brown fox jumps.'' =
     Inr ''The [[Quick]] [[Brown]] fox jumps.''"
proof -
  have "process_supernote_content ''The Quick Brown fox jumps.'' =
     Inr ''The [[Quick]] [[Brown]] fox jumps.''"
    by code_simp
  then show ?thesis
    using wrapped_neq [of word]
    by (auto simp: process_word_eq wikify_def process_supernote_content_eq)
qed

theorem C3_wrapping_rule_witness:
  "process_word ''Quick,'' = Inr ''[[Quick]],'' \<and> should_wrap (clean_word_of ''Quick,'') \<and>
   process_word ''NASA'' = Inr ''NASA'' \<and> \<not> should_wrap (clean_word_of ''NASA'') \<and>
   process_word ''The'' = Inr ''The'' \<and> \<not> should_wrap (clean_word_of ''The'') \<and>
   process_word ''A'' = Inr ''A'' \<and> \<not> should_wrap (clean_word_of ''A'') \<and>
   process_word ''fox'' = Inr ''fox'' \<and> \<not> should_wrap (clean_word_of ''fox'') \<and>
   process_word ''...'' = Inr ''...'' \<and> \<not> should_wrap (clean_word_of ''...'')"
proof -
  have "should_wrap (clean_word_of ''Quick,'')" "wrapped ''Quick,'' = ''[[Quick]],''"
    "\<not> should_wrap (clean_word_of ''NASA'')" "\<not> should_wrap (clean_word_of ''The'')"
    "\<not> should_wrap (clean_word_of ''A'')" "\<not> should_wrap (clean_word_of ''fox'')"
    "\<not> should_wrap (clean_word_of ''...'')"
    by code_simp+
  then show ?thesis
    using C3_wrapping_rule [of "''Quick,''"] C3_wrapping_rule [of "''NASA''"]
      C3_wrapping_rule [of "''The''"] C3_wrapping_rule [of "''A''"]
      C3_wrapping_rule [of "''fox''"] C3_wrapping_rule [of "''...''"]
    by simp
qed

section \<open>The clean word and the text after the brackets\<close>

lemma token_clean_word: "is_token w \<Longrightarrow> clean_word_of w = filter isword w"
  unfolding clean_word_of_filter is_token_def
  by (intro filter_cong) (auto simp: list_all_iff)

lemma token_punct: "is_token w \<Longrightarrow> filter is_punct w = filter (\<lambda>c. \<not> isword c) w"
  unfolding is_token_def
  by (intro filter_cong) (auto simp: list_all_iff is_punct_def)

lemma trailing_split:
  assumes "purely_trailing w"
  shows "filter (\<lambda>c. isword c \<or> isspace c) w = takeWhile isword w"
    and "filter is_punct w = dropWhile isword w"
proof -
  have w: "w = takeWhile isword w @ dropWhile isword w" by simp
  have t: "\<forall>c\<in>set (takeWhile isword w). isword c" by (auto dest: set_takeWhileD)
  from assms have d: "\<forall>c\<in>set (dropWhile isword w). is_punct c"
    by (simp add: purely_trailing_def list_all_iff)
  have "filter (\<lambda>c. isword c \<or> isspace c) w =
      filter (\<lambda>c. isword c \<or> isspace c) (takeWhile isword w) @
      filter (\<lambda>c. isword c \<or> isspace c) (dropWhile isword w)"
    by (subst w) (simp only: filter_append)
  also have "filter (\<lambda>c. isword c \<or> isspace c) (takeWhile isword w) = takeWhile isword w"
    using t by (simp add: filter_id_conv)
  also have "filter (\<lambda>c. isword c \<or> isspace c) (dropWhile isword w) = []"
    using d by (simp add: filter_empty_conv is_punct_def)
  finally show "filter (\<lambda>c. isword c \<or> isspace c) w = takeWhile isword w" by simp
  have "filter is_punct w =
      filter is_punct (takeWhile isword w) @ filter is_punct (dropWhile isword w)"
    by (subst w) (simp only: filter_append)
  also have "filter is_punct (takeWhile isword w) = []"
    using t by (simp add: filter_empty_conv is_punct_def)
  also have "filter is_punct (dropWhile isword w) = dropWhile isword w"
    using d by (simp add: filter_id_conv)
  finally show "filter is_punct w = dropWhile isword w" by simp
qed

lemma trailing_suffix:
  assumes "purely_trailing w"
  shows "w = clean_word_of w @ filter is_punct w"
    and "drop (length (clean_word_of w)) w = filter is_punct w"
proof -
  from trailing_split [OF assms] have
    c: "clean_word_of w = takeWhile isword w" and p: "filter is_punct w = dropWhile isword w"
    by (simp_all add: clean_word_of_filter)
  show "w = clean_word_of w @ filter is_punct w" by (simp add: c p)
  show "drop (length (clean_word_of w)) w = filter is_punct w"
    unfolding c p by (simp add: dropWhile_eq_drop)
qed

lemma filter_full_length:
  assumes "length (filter P xs) = length xs"
  shows "\<forall>x\<in>set xs. P x"
proof (rule ccontr)
  assume "\<not> (\<forall>x\<in>set xs. P x)"
  then obtain x where "x \<in> set xs" "\<not> P x" by blast
  then have "length (filter P xs) < length xs" by (rule length_filter_less)
  with assms show False by simp
qed

lemma not_trailing_suffix:
  assumes tok: "is_token w" and all: "list_all (\<lambda>c. \<not> isword c) (drop (length (clean_word_of w)) w)"
  shows "purely_trailing w"
proof -
  define m where "m = length (filter isword w)"
  from tok have cw: "clean_word_of w = filter isword w" by (rule token_clean_word)
  from all have d: "\<forall>c\<in>set (drop m w). \<not> isword c"
    unfolding cw list_all_iff m_def .
  have "filter isword (take m w @ drop m w) = filter isword (take m w) @ filter isword (drop m w)"
    by (rule filter_append)
  moreover have "filter isword (drop m w) = []" using d by (simp add: filter_empty_conv)
  ultimately have "filter isword w = filter isword (take m w)" by simp
  then have "length (filter isword (take m w)) = m" by (simp add: m_def)
  moreover have "m \<le> length w" unfolding m_def by (rule length_filter_le)
  then have "length (take m w) = m" by simp
  ultimately have "length (filter isword (take m w)) = length (take m w)" by simp
  then have t: "\<forall>c\<in>set (take m w). isword c" by (rule filter_full_length)
  have "dropWhile isword (take m w @ drop m w) = dropWhile isword (drop m w)"
    using t by (simp only: dropWhile_append2)
  moreover have "dropWhile isword (drop m w) = drop m w"
    using d by (cases "drop m w") simp_all
  ultimately have "dropWhile isword w = drop m w" by simp
  moreover have "\<forall>c\<in>set (drop m w). is_punct c"
    using d tok by (auto simp: is_punct_def is_token_def list_all_iff dest: in_set_dropD)
  ultimately show ?thesis by (simp add: purely_trailing_def list_all_iff)
qed

lemma token_suffix_length:
  assumes "is_token w"
  shows "length (drop (length (clean_word_of w)) w) = length (filter is_punct w)"
proof -
  have "length (filter isword w) + length (filter (\<lambda>c. \<not> isword c) w) = length w"
    by (rule sum_length_filter_compl)
  with assms show ?thesis by (simp add: token_clean_word token_punct)
qed

text \<open>
  C5. The clean word is the token without its characters that are neither word characters
  nor whitespace, wherever they stand. What follows the closing brackets is the token
  from index \<open>len(clean_word)\<close> on, which is as long as the token's punctuation. When
  the punctuation is purely trailing, it is that punctuation and the token is the clean
  word followed by it. When some punctuation stands before a word character, it holds a
  word character and is not the punctuation: \<open>O'Brien\<close> becomes \<open>[[OBrien]]n\<close> and
  \<open>"Hello\<close> becomes \<open>[[Hello]]o\<close>.
\<close>

theorem C5_clean_word_and_appended_text:
  "clean_word_of word = filter (\<lambda>c. isword c \<or> isspace c) word \<and>
   (should_wrap (clean_word_of word) \<longrightarrow>
      process_word word =
        Inr (''[['' @ clean_word_of word @ '']]'' @ drop (length (clean_word_of word)) word)) \<and>
   (is_token word \<longrightarrow>
      length (drop (length (clean_word_of word)) word) = length (filter is_punct word)) \<and>
   (is_token word \<and> purely_trailing word \<longrightarrow>
      drop (length (clean_word_of word)) word = filter is_punct word \<and>
      word = clean_word_of word @ filter is_punct word) \<and>
   (is_token word \<and> \<not> purely_trailing word \<longrightarrow>
      list_ex isword (drop (length (clean_word_of word)) word) \<and>
      drop (length (clean_word_of word)) word \<noteq> filter is_punct word) \<and>
   process_supernote_content (''O'' @ [CHR 0x27] @ ''Brien'') = Inr (''[[OBrien]]n'') \<and>
   process_supernote_content ([CHR 0x22] @ ''Hello'') = Inr ''[[Hello]]o''"
proof -
  have ex: "process_supernote_content (''O'' @ [CHR 0x27] @ ''Brien'') = Inr (''[[OBrien]]n'')"
    "process_supernote_content ([CHR 0x22] @ ''Hello'') = Inr ''[[Hello]]o''"
    by code_simp+
  have 1: "clean_word_of word = filter (\<lambda>c. isword c \<or> isspace c) word"
    by (rule clean_word_of_filter)
  have 2: "should_wrap (clean_word_of word) \<longrightarrow>
      process_word word =
        Inr (''[['' @ clean_word_of word @ '']]'' @ drop (length (clean_word_of word)) word)"
    by (simp add: process_word_eq wikify_def wrapped_def)
  have 3: "is_token word \<longrightarrow>
      length (drop (length (clean_word_of word)) word) = length (filter is_punct word)"
    using token_suffix_length by blast
  have 4: "is_token word \<and> purely_trailing word \<longrightarrow>
      drop (length (clean_word_of word)) word = filter is_punct word \<and>
      word = clean_word_of word @ filter is_punct word"
    using trailing_suffix [of word] by blast
  have 5: "is_token word \<and> \<not> purely_trailing word \<longrightarrow>
      list_ex isword (drop (length (clean_word_of word)) word) \<and>
      drop (length (clean_word_of word)) word \<noteq> filter is_punct word"
  proof (intro impI, elim conjE)
    assume tok: "is_token word" and nt: "\<not> purely_trailing word"
    from not_trailing_suffix [OF tok] nt
    have "\<not> list_all (\<lambda>c. \<not> isword c) (drop (length (clean_word_of word)) word)" by blast
    then have e: "list_ex isword (drop (length (clean_word_of word)) word)"
      by (auto simp: list_all_iff list_ex_iff)
    moreover have "\<not> list_ex isword (filter is_punct word)"
      by (auto simp: list_ex_iff is_punct_def)
    ultimately show "list_ex isword (drop (length (clean_word_of word)) word) \<and>
      drop (length (clean_word_of word)) word \<noteq> filter is_punct word"
      by auto
  qed
  show ?thesis by (intro conjI 1 2 3 4 5 ex)
qed

theorem C5_clean_word_witness:
  "is_token ''Paris,'' \<and> purely_trailing ''Paris,'' \<and> should_wrap (clean_word_of ''Paris,'') \<and>
   filter is_punct ''Paris,'' = '','' \<and>
   process_word ''Paris,'' = Inr ''[[Paris]],'' \<and>
   is_token (''O'' @ [CHR 0x27] @ ''Brien,'') \<and> \<not> purely_trailing (''O'' @ [CHR 0x27] @ ''Brien,'') \<and>
   should_wrap (clean_word_of (''O'' @ [CHR 0x27] @ ''Brien,'')) \<and>
   filter is_punct (''O'' @ [CHR 0x27] @ ''Brien,'') = [CHR 0x27] @ '','' \<and>
   process_word (''O'' @ [CHR 0x27] @ ''Brien,'') = Inr ''[[OBrien]]n,'' \<and>
   list_ex isword
     (drop (length (clean_word_of (''O'' @ [CHR 0x27] @ ''Brien,''))) (''O'' @ [CHR 0x27] @ ''Brien,''))"
proof -
  let ?p = "''Paris,''" and ?o = "''O'' @ [CHR 0x27] @ ''Brien,''"
  have a: "is_token ?p" "purely_trailing ?p" "should_wrap (clean_word_of ?p)"
    "filter is_punct ?p = '',''"
    by code_simp+
  have a': "''[['' @ clean_word_of ?p @ '']]'' @ drop (length (clean_word_of ?p)) ?p = ''[[Paris]],''"
    by code_simp
  have b: "is_token ?o" "\<not> purely_trailing ?o" "should_wrap (clean_word_of ?o)"
    "filter is_punct ?o = [CHR 0x27] @ '',''"
    by code_simp+
  have b': "''[['' @ clean_word_of ?o @ '']]'' @ drop (length (clean_word_of ?o)) ?o = ''[[OBrien]]n,''"
    by code_simp
  note p = C5_clean_word_and_appended_text [of ?p]
  note o = C5_clean_word_and_appended_text [of ?o]
  have 1: "process_word ?p = Inr ''[[Paris]],''"
    using p [THEN conjunct2, THEN conjunct1, THEN mp, OF a(3)] unfolding a' .
  have 2: "process_word ?o = Inr ''[[OBrien]]n,''"
    using o [THEN conjunct2, THEN conjunct1, THEN mp, OF b(3)] unfolding b' .
  have 3: "list_ex isword (drop (length (clean_word_of ?o)) ?o)"
    using o [THEN conjunct2, THEN conjunct2, THEN conjunct2, THEN conjunct2, THEN conjunct1,
        THEN mp, OF conjI, OF b(1) b(2)]
    by (rule conjunct1)
  show ?thesis by (intro conjI a b 1 2 3)
qed

section \<open>Failures while a file is processed\<close>

lemma add_to_daily_note_returns: "fst (add_to_daily_note E note_path content st) = Inr ()"
  by (simp add: add_to_daily_note_def split: prod.splits sum.splits)

lemma process_supernote_file_returns:
  "fst (process_supernote_file E self file_path date st) = Inr ()"
  by (simp add: process_supernote_file_def split: prod.splits sum.splits)

lemma process_supernote_file_reports:
  "process_supernote_file_body E self file_path date st = (Inl e, st1) \<Longrightarrow>
     process_supernote_file E self file_path date st =
       (Inr (), print (''Error processing '' @ file_path @ '': '' @ exn_str e) st1)"
  by (simp add: process_supernote_file_def)

lemma main_loop_returns: "fst (main_loop E self filenames st) = Inr ()"
proof (induction filenames arbitrary: st)
  case Nil
  then show ?case by simp
next
  case (Cons filename filenames)
  obtain st1 where
    "process_supernote_file E self (path_join EXPORT_FOLDER filename) (now E (world st)) st
       = (Inr (), st1)"
    using process_supernote_file_returns
      [of E self "path_join EXPORT_FOLDER filename" "now E (world st)" st]
    by (cases "process_supernote_file E self (path_join EXPORT_FOLDER filename) (now E (world st)) st")
       simp
  with Cons.IH show ?case by (simp add: Let_def)
qed

lemma main_loop_step:
  "main_loop E self (filename # filenames) st =
     (if endswith_any filename VALID_EXTENSIONS \<and> \<not> suffix PROCESSED_SUFFIX filename
      then main_loop E self filenames
             (snd (process_supernote_file E self (path_join EXPORT_FOLDER filename)
                     (now E (world st)) st))
      else main_loop E self filenames st)"
proof -
  obtain st1 where
    "process_supernote_file E self (path_join EXPORT_FOLDER filename) (now E (world st)) st
       = (Inr (), st1)"
    using process_supernote_file_returns
      [of E self "path_join EXPORT_FOLDER filename" "now E (world st)" st]
    by (cases "process_supernote_file E self (path_join EXPORT_FOLDER filename) (now E (world st)) st")
       simp
  then show ?thesis by (simp add: Let_def)
qed

lemma body_read_fails:
  "call (open_read E file_path) st = (Inl e, st1) \<Longrightarrow>
     process_supernote_file_body E self file_path date st = (Inl e, st1)"
  by (simp add: process_supernote_file_body_def)

lemma body_ensure_fails:
  "call (open_read E file_path) st = (Inr content, st1) \<Longrightarrow>
   ensure_daily_note_exists E self date st1 = (Inl e, st2) \<Longrightarrow>
     process_supernote_file_body E self file_path date st = (Inl e, st2)"
  by (simp add: process_supernote_file_body_def process_supernote_content_eq)

lemma body_rename_fails:
  "call (open_read E file_path) st = (Inr content, st1) \<Longrightarrow>
   ensure_daily_note_exists E self date st1 = (Inr daily_note_path, st2) \<Longrightarrow>
   process_supernote_content content = Inr processed_content \<Longrightarrow>
   add_to_daily_note E daily_note_path processed_content st2 = (Inr (), st3) \<Longrightarrow>
   call (rename E file_path (file_path @ PROCESSED_SUFFIX)) st3 = (Inl e, st4) \<Longrightarrow>
     process_supernote_file_body E self file_path date st = (Inl e, st4)"
  by (simp add: process_supernote_file_body_def)

lemma add_to_daily_note_reports:
  "call (patch_content E note_path ''heading'' NOTE_SECTION_HEADING ''append''
           ([LF] @ content @ [LF])) st = (Inl e, st1) \<Longrightarrow>
     add_to_daily_note E note_path content st =
       (Inr (), print (''Error adding content to daily note: '' @ exn_str e) st1)"
  by (simp add: add_to_daily_note_def)

lemma ensure_create_fails:
  "call (get_file_contents E (DAILY_NOTES_FOLDER @ ''/'' @ strftime E date ''%Y-%m-%d'' @ ''.md'')) st
      = (Inl e0, st1) \<Longrightarrow>
   template_content self = Some t \<Longrightarrow> t \<noteq> [] \<Longrightarrow>
   call (append_content E (DAILY_NOTES_FOLDER @ ''/'' @ strftime E date ''%Y-%m-%d'' @ ''.md'')
           (str_replace ''{{time}}'' (strftime E date ''%H:%M'')
              (str_replace ''{{date}}'' (strftime E date ''%Y-%m-%d'') t))) st1 = (Inl e, st2) \<Longrightarrow>
     ensure_daily_note_exists E self date st = (Inl e, st2)"
  by (simp add: ensure_daily_note_exists_def Let_def)

text \<open>
  C10. \<open>process_supernote_file\<close> never raises: whatever the environment does, it
  returns. When a statement of its \<open>try\<close> block raised, it has printed
  \<open>Error processing\<close> with the path and the text of the exception. The block raises when
  reading the file raises, when \<open>ensure_daily_note_exists\<close> raises (as it does when
  creating the note from the template raises) and when renaming raises; an exception from
  appending to the note is caught and printed by \<open>add_to_daily_note\<close>, which never raises
  either. So the loop of \<open>main\<close> never stops early: after each file it goes on with the
  remaining names, in the state that the file left.
\<close>

theorem C10_file_errors_are_caught:
  "fst (process_supernote_file E self file_path date st) = Inr () \<and>
   (process_supernote_file_body E self file_path date st = (Inl e, st') \<longrightarrow>
      process_supernote_file E self file_path date st =
        (Inr (), print (''Error processing '' @ file_path @ '': '' @ exn_str e) st')) \<and>
   (call (open_read E file_path) st = (Inl e, st') \<longrightarrow>
      process_supernote_file_body E self file_path date st = (Inl e, st')) \<and>
   (call (open_read E file_path) st = (Inr content, st1) \<and>
    ensure_daily_note_exists E self date st1 = (Inl e, st') \<longrightarrow>
      process_supernote_file_body E self file_path date st = (Inl e, st')) \<and>
   (call (get_file_contents E (DAILY_NOTES_FOLDER @ ''/'' @ strftime E date ''%Y-%m-%d'' @ ''.md'')) st
      = (Inl e0, st1) \<and>
    template_content self = Some t \<and> t \<noteq> [] \<and>
    call (append_content E (DAILY_NOTES_FOLDER @ ''/'' @ strftime E date ''%Y-%m-%d'' @ ''.md'')
            (str_replace ''{{time}}'' (strftime E date ''%H:%M'')
               (str_replace ''{{date}}'' (strftime E date ''%Y-%m-%d'') t))) st1 = (Inl e, st') \<longrightarrow>
      ensure_daily_note_exists E self date st = (Inl e, st')) \<and>
   fst (add_to_daily_note E note_path text st) = Inr () \<and>
   (call (patch_content E note_path ''heading'' NOTE_SECTION_HEADING ''append''
            ([LF] @ text @ [LF])) st = (Inl e, st') \<longrightarrow>
      add_to_daily_note E note_path text st =
        (Inr (), print (''Error adding content to daily note: '' @ exn_str e) st')) \<and>
   (call (open_read E file_path) st = (Inr content, st1) \<and>
    ensure_daily_note_exists E self date st1 = (Inr daily_note_path, st2) \<and>
    process_supernote_content content = Inr processed_content \<and>
    add_to_daily_note E daily_note_path processed_content st2 = (Inr (), st3) \<and>
    call (rename E file_path (file_path @ PROCESSED_SUFFIX)) st3 = (Inl e, st') \<longrightarrow>
      process_supernote_file_body E self file_path date st = (Inl e, st')) \<and>
   fst (main_loop E self filenames st) = Inr () \<and>
   main_loop E self (filename # filenames) st =
     (if endswith_any filename VALID_EXTENSIONS \<and> \<not> suffix PROCESSED_SUFFIX filename
      then main_loop E self filenames
             (snd (process_supernote_file E self (path_join EXPORT_FOLDER filename)
                     (now E (world st)) st))
      else main_loop E self filenames st)"
proof -
  have 1: "process_supernote_file_body E self file_path date st = (Inl e, st') \<longrightarrow>
      process_supernote_file E self file_path date st =
        (Inr (), print (''Error processing '' @ file_path @ '': '' @ exn_str e) st')"
    by (intro impI) (rule process_supernote_file_reports)
  have 2: "call (open_read E file_path) st = (Inl e, st') \<longrightarrow>
      process_supernote_file_body E self file_path date st = (Inl e, st')"
    by (intro impI) (rule body_read_fails)
  have 3: "call (open_read E file_path) st = (Inr content, st1) \<and>
    ensure_daily_note_exists E self date st1 = (Inl e, st') \<longrightarrow>
      process_supernote_file_body E self file_path date st = (Inl e, st')"
    by (intro impI, elim conjE) (rule body_ensure_fails)
  have 4: "call (get_file_contents E (DAILY_NOTES_FOLDER @ ''/'' @ strftime E date ''%Y-%m-%d'' @ ''.md'')) st
      = (Inl e0, st1) \<and>
    template_content self = Some t \<and> t \<noteq> [] \<and>
    call (append_content E (DAILY_NOTES_FOLDER @ ''/'' @ strftime E date ''%Y-%m-%d'' @ ''.md'')
            (str_replace ''{{time}}'' (strftime E date ''%H:%M'')
               (str_replace ''{{date}}'' (strftime E date ''%Y-%m-%d'') t))) st1 = (Inl e, st') \<longrightarrow>
      ensure_daily_note_exists E self date st = (Inl e, st')"
    by (intro impI, elim conjE) (rule ensure_create_fails)
  have 5: "call (patch_content E note_path ''heading'' NOTE_SECTION_HEADING ''append''
            ([LF] @ text @ [LF])) st = (Inl e, st') \<longrightarrow>
      add_to_daily_note E note_path text st =
        (Inr (), print (''Error adding content to daily note: '' @ exn_str e) st')"
    by (intro impI) (rule add_to_daily_note_reports)
  have 6: "call (open_read E file_path) st = (Inr content, st1) \<and>
    ensure_daily_note_exists E self date st1 = (Inr daily_note_path, st2) \<and>
    process_supernote_content content = Inr processed_content \<and>
    add_to_daily_note E daily_note_path processed_content st2 = (Inr (), st3) \<and>
    call (rename E file_path (file_path @ PROCESSED_SUFFIX)) st3 = (Inl e, st') \<longrightarrow>
      process_supernote_file_body E self file_path date st = (Inl e, st')"
    by (intro impI, elim conjE) (rule body_rename_fails)
  show ?thesis
    by (intro conjI 1 2 3 4 5 6 process_supernote_file_returns add_to_daily_note_returns
          main_loop_returns main_loop_step)
qed

theorem C10_file_errors_witness:
  "call (open_read demo_env ''Supernote Exports/a.txt'')
      \<lparr>world = [''Supernote Exports/b.txt''], stdout = []\<rparr> =
     (Inl (OtherException ''No such file''), \<lparr>world = [''Supernote Exports/b.txt''], stdout = []\<rparr>) \<and>
   process_supernote_file demo_env \<lparr>template_content = None\<rparr> ''Supernote Exports/a.txt'' ()
      \<lparr>world = [''Supernote Exports/b.txt''], stdout = []\<rparr> =
     (Inr (), \<lparr>world = [''Supernote Exports/b.txt''],
               stdout = [''Error processing Supernote Exports/a.txt: No such file'']\<rparr>) \<and>
   main_loop demo_env \<lparr>template_content = None\<rparr> [''a.txt'', ''notes.md'', ''b.txt'']
      \<lparr>world = [''Supernote Exports/b.txt''], stdout = []\<rparr> =
     (Inr (), \<lparr>world = [''Supernote Exports/b.txt.processed''],
               stdout = [''Error processing Supernote Exports/a.txt: No such file'']\<rparr>)"
proof -
  let ?st = "\<lparr>world = [''Supernote Exports/b.txt''], stdout = []\<rparr>"
  let ?self = "\<lparr>template_content = None\<rparr>"
  have r: "call (open_read demo_env ''Supernote Exports/a.txt'') ?st =
     (Inl (OtherException ''No such file''), ?st)"
    by (simp add: call_def demo_env_def)
  note c = C10_file_errors_are_caught
    [of demo_env ?self "''Supernote Exports/a.txt''" "()" ?st "OtherException ''No such file''" ?st]
  have b: "process_supernote_file_body demo_env ?self ''Supernote Exports/a.txt'' () ?st =
      (Inl (OtherException ''No such file''), ?st)"
    using c [THEN conjunct2, THEN conjunct2, THEN conjunct1, THEN mp, OF r] .
  have p: "process_supernote_file demo_env ?self ''Supernote Exports/a.txt'' () ?st =
      (Inr (), print (''Error processing '' @ ''Supernote Exports/a.txt'' @ '': '' @
         exn_str (OtherException ''No such file'')) ?st)"
    using c [THEN conjunct2, THEN conjunct1, THEN mp, OF b] .
  have m: "main_loop demo_env ?self [''a.txt'', ''notes.md'', ''b.txt''] ?st =
     (Inr (), \<lparr>world = [''Supernote Exports/b.txt.processed''],
               stdout = [''Error processing Supernote Exports/a.txt: No such file'']\<rparr>)"
    by code_simp
  from p have "process_supernote_file demo_env ?self ''Supernote Exports/a.txt'' () ?st =
     (Inr (), \<lparr>world = [''Supernote Exports/b.txt''],
               stdout = [''Error processing Supernote Exports/a.txt: No such file'']\<rparr>)"
    by (simp add: print_def)
  with r m show ?thesis by (intro conjI)
qed

end
